theory Spec2Isabelle
  imports Complex_Main
begin

section \<open>Data model\<close>

text \<open>
  The game keeps a chain of balls on a polyline path (BallChain.js, Path.js).
  JavaScript numbers are modelled as mathematical reals: every arithmetic
  operation is exact, there is no NaN and no infinity. Array indices, counters
  and ids are integers. A colour is the CSS string the source stores.
\<close>

type_synonym color = string

text \<open>A ball object \<^verbatim>\<open>{id, color, distance, radius}\<close>.\<close>

record ball =
  ball_id :: nat
  color :: color
  distance :: real
  radius :: real

text \<open>A path point \<^verbatim>\<open>{x, y}\<close>.\<close>

record point =
  xc :: real
  yc :: real

text \<open>The fields of a \<^verbatim>\<open>Path\<close> object that the game logic reads.\<close>

record path =
  points :: "point list"
  segmentLengths :: "real list"
  totalLength :: real

text \<open>The fields of a \<^verbatim>\<open>BallChain\<close> object.\<close>

record chain =
  chain_path :: path
  balls :: "ball list"
  ballRadius :: real
  speed :: real
  colors :: "color list"
  spawnTimer :: real
  spawnInterval :: real
  maxBalls :: int
  spawnedCount :: int
  nextId :: nat

text \<open>
  The projectile object built by \<^verbatim>\<open>Shooter.shoot\<close>; the chain reads its
  position, colour and radius.
\<close>

record projectile =
  proj_x :: real
  proj_y :: real
  proj_color :: color
  proj_radius :: real

text \<open>
  What JavaScript does where the model cannot follow with a real number:
  reading a property of \<^verbatim>\<open>undefined\<close> throws a TypeError, and a division by
  zero gives NaN or an infinity (\<open>NaNValue\<close> stands for both).
\<close>

datatype js_error = TypeError | NaNValue

section \<open>Construction and spawning\<close>

text \<open>
  \<^verbatim>\<open>Math.random\<close> is an input of the model: \<open>rnd k\<close> is the k-th number drawn
  in a call, and \<^verbatim>\<open>Math.floor(Math.random() * colors.length)\<close> is
  \<open>rnd k mod length cols\<close>, an index inside the palette.
\<close>

definition randomColor :: "color list \<Rightarrow> (nat \<Rightarrow> nat) \<Rightarrow> nat \<Rightarrow> color" where
  "randomColor cols rnd k = cols ! (rnd k mod length cols)"

text \<open>\<^verbatim>\<open>preSpawnBalls(count)\<close>: each new ball is pushed at distance 0.\<close>

fun preSpawnBalls :: "nat \<Rightarrow> (nat \<Rightarrow> nat) \<Rightarrow> nat \<Rightarrow> chain \<Rightarrow> chain" where
  "preSpawnBalls 0 rnd k c = c"
| "preSpawnBalls (Suc n) rnd k c =
     preSpawnBalls n rnd (Suc k)
       (c\<lparr>balls := balls c @
              [\<lparr>ball_id = nextId c, color = randomColor (colors c) rnd k,
                distance = 0, radius = ballRadius c\<rparr>],
          nextId := Suc (nextId c),
          spawnedCount := spawnedCount c + 1\<rparr>)"

text \<open>The constructor \<^verbatim>\<open>new BallChain(path, level)\<close>.\<close>

definition newChain :: "path \<Rightarrow> int \<Rightarrow> (nat \<Rightarrow> nat) \<Rightarrow> chain" where
  "newChain p level rnd =
     preSpawnBalls 1 rnd 0
       \<lparr>chain_path = p, balls = [], ballRadius = 18,
        speed = 50 + real_of_int level * 5,
        colors = [''#ff0055'', ''#00f2ff'', ''#00ff00'', ''#ffff00''],
        spawnTimer = 0,
        spawnInterval = (18 * 2) / (50 + real_of_int level * 5),
        maxBalls = 20 + level * 10,
        spawnedCount = 0, nextId = 0\<rparr>"

text \<open>
  The loop of \<^verbatim>\<open>spawnBall\<close> that finds the two balls with the smallest
  \<open>\<bar>distance\<bar>\<close>: one step per ball, on the pair (closest, secondClosest).
\<close>

fun closestStep :: "ball option \<times> ball option \<Rightarrow> ball \<Rightarrow> ball option \<times> ball option" where
  "closestStep (None, sc) b = (Some b, None)"
| "closestStep (Some cl, sc) b =
     (if \<bar>distance b\<bar> < \<bar>distance cl\<bar> then (Some b, Some cl)
      else (case sc of
              None \<Rightarrow> (Some cl, Some b)
            | Some s \<Rightarrow> if \<bar>distance b\<bar> < \<bar>distance s\<bar> then (Some cl, Some b)
                        else (Some cl, Some s)))"

definition closestTwo :: "ball list \<Rightarrow> ball option \<times> ball option" where
  "closestTwo bs = foldl closestStep (None, None) bs"

text \<open>
  The do-while loop of \<^verbatim>\<open>spawnBall\<close>: draw a colour, count the attempt, and
  draw again while fewer than 10 attempts were made and the colour is the one
  to avoid.
\<close>

function resample :: "color list \<Rightarrow> (nat \<Rightarrow> nat) \<Rightarrow> color \<Rightarrow> nat \<Rightarrow> color" where
  "resample cols rnd avoid attempts =
     (let col = randomColor cols rnd attempts; a = Suc attempts
      in if a < 10 \<and> col = avoid then resample cols rnd avoid a else col)"
  by pat_completeness auto
termination
  by (relation "measure (\<lambda>(cols, rnd, avoid, attempts). 10 - attempts)") auto

declare resample.simps [simp del]

text \<open>\<^verbatim>\<open>spawnBall()\<close>.\<close>

definition spawnBall :: "(nat \<Rightarrow> nat) \<Rightarrow> chain \<Rightarrow> chain" where
  "spawnBall rnd c =
     (let (closest, secondClosest) = closestTwo (balls c);
          col = (case (closest, secondClosest) of
                   (Some cl, Some sc) \<Rightarrow>
                     if color cl = color sc then resample (colors c) rnd (color cl) 0
                     else randomColor (colors c) rnd 0
                 | _ \<Rightarrow> randomColor (colors c) rnd 0);
          spawnDistance = (case closest of
                             None \<Rightarrow> 0
                           | Some cl \<Rightarrow> distance cl - ballRadius c * 2)
      in c\<lparr>balls := balls c @
                [\<lparr>ball_id = nextId c, color = col, distance = spawnDistance,
                  radius = ballRadius c\<rparr>],
           nextId := Suc (nextId c),
           spawnedCount := spawnedCount c + 1\<rparr>)"

section \<open>Queries\<close>

text \<open>\<^verbatim>\<open>hasReachedEnd()\<close>, \<^verbatim>\<open>isEmpty()\<close>, \<^verbatim>\<open>hasFinishedSpawning()\<close>.\<close>

definition hasReachedEnd :: "chain \<Rightarrow> bool" where
  "hasReachedEnd c =
     (if length (balls c) = 0 then False
      else totalLength (chain_path c) \<le> distance (balls c ! (length (balls c) - 1)))"

definition isEmpty :: "chain \<Rightarrow> bool" where
  "isEmpty c = (length (balls c) = 0)"

definition hasFinishedSpawning :: "chain \<Rightarrow> bool" where
  "hasFinishedSpawning c = (maxBalls c \<le> spawnedCount c)"

section \<open>The tick: \<^verbatim>\<open>update(dt, onMatch)\<close>\<close>

text \<open>The local constant \<^verbatim>\<open>epsilon\<close> of \<^verbatim>\<open>update\<close>.\<close>

definition epsilon :: real where
  "epsilon = 2"

text \<open>
  Step 1, spawning: below the cap the timer accumulates \<open>dt\<close>; when it has
  reached the interval one ball is spawned and the timer is set to 0.
\<close>

definition spawnStep :: "real \<Rightarrow> (nat \<Rightarrow> nat) \<Rightarrow> chain \<Rightarrow> chain" where
  "spawnStep dt rnd c =
     (if spawnedCount c < maxBalls c then
        (let c1 = c\<lparr>spawnTimer := spawnTimer c + dt\<rparr>
         in if spawnInterval c1 \<le> spawnTimer c1
            then (spawnBall rnd c1)\<lparr>spawnTimer := 0\<rparr>
            else c1)
      else c)"

text \<open>
  Step 2, segments: the loop over \<open>i = 1 ..\<close> with \<open>prevBall = balls[i - 1]\<close>
  and the segment being built; a finished segment is pushed when a gap larger
  than \<open>maxGap = diameter + epsilon\<close> is met, the last one after the loop.
\<close>

fun identifySegments :: "real \<Rightarrow> ball \<Rightarrow> ball list \<Rightarrow> ball list \<Rightarrow> ball list list" where
  "identifySegments maxGap prevBall currentSegment [] = [currentSegment]"
| "identifySegments maxGap prevBall currentSegment (b # rest) =
     (if distance b - distance prevBall \<le> maxGap
      then identifySegments maxGap b (currentSegment @ [b]) rest
      else currentSegment # identifySegments maxGap b [b] rest)"

text \<open>\<^verbatim>\<open>ball.distance += moveSpeed * dt\<close> on every ball of a segment.\<close>

definition advance :: "real \<Rightarrow> ball list \<Rightarrow> ball list" where
  "advance delta seg = map (\<lambda>b. b\<lparr>distance := distance b + delta\<rparr>) seg"

text \<open>
  Step 3, motion. The segments hold the ball objects themselves, so when
  segment \<open>i\<close> is processed the balls of segment \<open>i - 1\<close> already carry their
  new distances: \<open>prevTail\<close> is the last ball of the previous segment as moved.
  The velocity of a segment \<open>i > 0\<close>:
\<close>

definition pullSpeed :: "real \<Rightarrow> real \<Rightarrow> real" where
  "pullSpeed attractionSpeed gap =
     (let pullStrength = min (gap / 50) 1.5
      in - attractionSpeed * (0.5 + pullStrength))"

fun moveRest :: "real \<Rightarrow> real \<Rightarrow> real \<Rightarrow> ball \<Rightarrow> ball list list \<Rightarrow> ball list list" where
  "moveRest attractionSpeed diameter dt prevTail [] = []"
| "moveRest attractionSpeed diameter dt prevTail (segment # rest) =
     (let head = hd segment;
          gap = distance head - distance prevTail - diameter;
          moveSpeed = pullSpeed attractionSpeed gap;
          moved = advance (moveSpeed * dt) segment
      in moved # moveRest attractionSpeed diameter dt (last moved) rest)"

definition moveSegments ::
  "real \<Rightarrow> real \<Rightarrow> real \<Rightarrow> real \<Rightarrow> ball list list \<Rightarrow> ball list list" where
  "moveSegments spd attractionSpeed diameter dt segments =
     (case segments of
        [] \<Rightarrow> []
      | first # rest \<Rightarrow>
          (let moved = advance (spd * dt) first
           in moved # moveRest attractionSpeed diameter dt (last moved) rest))"

text \<open>
  Step 4, overlap resolution: the loop over \<open>i = 1 ..\<close>, where \<open>prevBall\<close> is
  the ball at \<open>i - 1\<close> after its own clamping.
\<close>

fun resolveFrom :: "real \<Rightarrow> ball \<Rightarrow> ball list \<Rightarrow> ball list" where
  "resolveFrom diameter prevBall [] = []"
| "resolveFrom diameter prevBall (b # rest) =
     (let b' = (if distance b < distance prevBall + diameter
                then b\<lparr>distance := distance prevBall + diameter\<rparr> else b)
      in b' # resolveFrom diameter b' rest)"

definition resolveOverlaps :: "real \<Rightarrow> ball list \<Rightarrow> ball list" where
  "resolveOverlaps diameter bs =
     (case bs of [] \<Rightarrow> [] | b # rest \<Rightarrow> b # resolveFrom diameter b rest)"

text \<open>
  Step 5, the match scan. The inner while loop, from \<open>j\<close> with \<open>count\<close> balls
  found so far; it returns the final \<open>(j, count)\<close>.
\<close>

function extendRun :: "real \<Rightarrow> ball list \<Rightarrow> color \<Rightarrow> nat \<Rightarrow> nat \<Rightarrow> nat \<times> nat" where
  "extendRun maxGap bs col j count =
     (if j < length bs \<and> color (bs ! j) = col \<and>
         distance (bs ! j) - distance (bs ! (j - 1)) \<le> maxGap
      then extendRun maxGap bs col (j + 1) (count + 1)
      else (j, count))"
  by pat_completeness auto
termination
  by (relation "measure (\<lambda>(maxGap, bs, col, j, count). length bs - j)") auto

declare extendRun.simps [simp del]

text \<open>\<^verbatim>\<open>balls.splice(i, count)\<close>: remove \<open>count\<close> elements from index \<open>i\<close>.\<close>

definition spliceRemove :: "nat \<Rightarrow> nat \<Rightarrow> 'a list \<Rightarrow> 'a list" where
  "spliceRemove i count xs = take i xs @ drop (i + count) xs"

lemma extendRun_step:
  "j < length bs \<Longrightarrow> color (bs ! j) = col \<Longrightarrow>
   distance (bs ! j) - distance (bs ! (j - 1)) \<le> maxGap \<Longrightarrow>
   extendRun maxGap bs col j count = extendRun maxGap bs col (j + 1) (count + 1)"
  by (subst extendRun.simps) simp

lemma extendRun_stop:
  "\<not> (j < length bs \<and> color (bs ! j) = col \<and>
      distance (bs ! j) - distance (bs ! (j - 1)) \<le> maxGap) \<Longrightarrow>
   extendRun maxGap bs col j count = (j, count)"
  by (subst extendRun.simps) auto

lemma extendRun_bounds:
  "extendRun maxGap bs col j count = (j', count') \<Longrightarrow>
     j \<le> j' \<and> count \<le> count' \<and> j' - j = count' - count"
proof (induction maxGap bs col j count rule: extendRun.induct)
  case (1 maxGap bs col j count)
  show ?case
  proof (cases "j < length bs \<and> color (bs ! j) = col \<and>
         distance (bs ! j) - distance (bs ! (j - 1)) \<le> maxGap")
    case True
    with "1.prems" have "extendRun maxGap bs col (j + 1) (count + 1) = (j', count')"
      by (simp add: extendRun_step)
    with "1.IH" True have "j + 1 \<le> j' \<and> count + 1 \<le> count' \<and> j' - (j + 1) = count' - (count + 1)"
      by blast
    then show ?thesis by linarith
  next
    case False
    from extendRun_stop [OF False] "1.prems" show ?thesis
      by simp
  qed
qed

text \<open>
  The outer while loop at index \<open>i\<close>; \<open>calls\<close> lists the arguments of the
  \<^verbatim>\<open>onMatch\<close> invocations made so far, oldest first (the invocations that
  happen when a callback is passed).
\<close>

function matchLoop :: "real \<Rightarrow> ball list \<Rightarrow> nat \<Rightarrow> nat list \<Rightarrow> ball list \<times> nat list" where
  "matchLoop maxGap bs i calls =
     (if i < length bs then
        (let (j, count) = extendRun maxGap bs (color (bs ! i)) (i + 1) 1
         in if 3 \<le> count
            then matchLoop maxGap (spliceRemove i count bs) i (calls @ [count])
            else matchLoop maxGap bs j calls)
      else (bs, calls))"
  by pat_completeness auto
termination
proof (relation "measure (\<lambda>(maxGap, bs, i, calls). length bs - i)")
  show "wf (measure (\<lambda>(maxGap, bs, i, calls). length bs - i))" by simp
next
  fix maxGap :: real and bs :: "ball list" and i :: nat and calls :: "nat list" and x j count
  assume a: "i < length bs" "x = extendRun maxGap bs (color (bs ! i)) (i + 1) 1"
    "(j, count) = x" "3 \<le> count"
  then show "((maxGap, spliceRemove i count bs, i, calls @ [count]), maxGap, bs, i, calls)
      \<in> measure (\<lambda>(maxGap, bs, i, calls). length bs - i)"
    by (auto simp: spliceRemove_def)
next
  fix maxGap :: real and bs :: "ball list" and i :: nat and calls :: "nat list" and x j count
  assume a: "i < length bs" "x = extendRun maxGap bs (color (bs ! i)) (i + 1) 1"
    "(j, count) = x" "\<not> 3 \<le> count"
  from a(2,3) have "extendRun maxGap bs (color (bs ! i)) (i + 1) 1 = (j, count)" by simp
  from extendRun_bounds [OF this] have "i < j" by simp
  with a(1) show "((maxGap, bs, j, calls), maxGap, bs, i, calls)
      \<in> measure (\<lambda>(maxGap, bs, i, calls). length bs - i)"
    by simp
qed

declare matchLoop.simps [simp del]

text \<open>
  Steps 2 to 4 of \<^verbatim>\<open>update\<close> on a chain that holds a ball: sort, split into
  segments, move them, resolve the overlaps. Moving changes the ball objects
  in place, so the array afterwards is the moved segments one after the other.
\<close>

definition settle :: "real \<Rightarrow> chain \<Rightarrow> ball list" where
  "settle dt c1 =
     (let diameter = ballRadius c1 * 2;
          attractionSpeed = speed c1 * 4;
          ordered = sort_key distance (balls c1);
          segments = identifySegments (diameter + epsilon) (hd ordered) [hd ordered] (tl ordered);
          moved = concat (moveSegments (speed c1) attractionSpeed diameter dt segments)
      in resolveOverlaps diameter moved)"

text \<open>
  The whole tick. The result is the new chain and the list of the counts
  passed to \<^verbatim>\<open>onMatch\<close>, in call order.
\<close>

definition update :: "real \<Rightarrow> (nat \<Rightarrow> nat) \<Rightarrow> chain \<Rightarrow> chain \<times> nat list" where
  "update dt rnd c =
     (let c1 = spawnStep dt rnd c
      in if length (balls c1) = 0 then (c1, [])
         else
           (let (final, calls) = matchLoop (ballRadius c1 * 2 + epsilon) (settle dt c1) 0 []
            in (c1\<lparr>balls := final\<rparr>, calls)))"

section \<open>The path: \<^verbatim>\<open>Path\<close>\<close>

text \<open>
  \<^verbatim>\<open>Math.atan2(y, x)\<close>, the angle of the vector \<open>(x, y)\<close> in \<open>(-\<pi>, \<pi>]\<close>, and
  \<^verbatim>\<open>Math.hypot\<close>.
\<close>

definition atan2 :: "real \<Rightarrow> real \<Rightarrow> real" where
  "atan2 y x =
     (if 0 < x then arctan (y / x)
      else if x < 0 then (if 0 \<le> y then arctan (y / x) + pi else arctan (y / x) - pi)
      else if 0 < y then pi / 2
      else if y < 0 then - (pi / 2)
      else 0)"

definition hypot :: "real \<Rightarrow> real \<Rightarrow> real" where
  "hypot a b = sqrt (a * a + b * b)"

text \<open>
  \<^verbatim>\<open>generateSpiral()\<close>: 501 points from the outer coil to the inner one, then
  the length of every segment and their sum.
\<close>

definition spiralPoint :: "real \<Rightarrow> real \<Rightarrow> nat \<Rightarrow> point" where
  "spiralPoint width height i =
     (let centerX = width / 2;
          centerY = height / 2;
          maxRadius = min width height * 0.45;
          coils = 3;
          steps = 500;
          t = real i / steps;
          angle = t * pi * 2 * coils;
          rad = maxRadius * (1 - t * 0.8)
      in \<lparr>xc = centerX + cos angle * rad, yc = centerY + sin angle * rad\<rparr>)"

definition measureSegments :: "point list \<Rightarrow> real list" where
  "measureSegments pts =
     map (\<lambda>i. hypot (xc (pts ! (i + 1)) - xc (pts ! i)) (yc (pts ! (i + 1)) - yc (pts ! i)))
       [0 ..< length pts - 1]"

definition pathOf :: "point list \<Rightarrow> path" where
  "pathOf pts =
     \<lparr>points = pts, segmentLengths = measureSegments pts,
      totalLength = foldl (+) 0 (measureSegments pts)\<rparr>"

definition newPath :: "real \<Rightarrow> real \<Rightarrow> path" where
  "newPath width height = pathOf (map (spiralPoint width height) [0 ..< 501])"

text \<open>The object \<^verbatim>\<open>{x, y, angle}\<close> that \<^verbatim>\<open>getPointAt\<close> returns; its fallthrough
  return is a bare point, without an angle.\<close>

record located =
  loc_x :: real
  loc_y :: real
  loc_angle :: "real option"

text \<open>
  Case 3 of \<^verbatim>\<open>getPointAt\<close>: the walk over the segment lengths from index \<open>i\<close>
  with \<open>currentDist\<close> accumulated. A point missing from the array is a
  TypeError, also for the fallthrough on an empty array, where the source
  returns \<^verbatim>\<open>undefined\<close> and the caller's property read throws. A segment of
  length 0 that is selected divides by zero (the result is not a finite
  number).
\<close>

function walkSegments :: "path \<Rightarrow> real \<Rightarrow> nat \<Rightarrow> real \<Rightarrow> js_error + located" where
  "walkSegments p dst i currentDist =
     (if i < length (segmentLengths p) then
        (let segLen = segmentLengths p ! i
         in if dst \<le> currentDist + segLen then
              (if length (points p) \<le> i + 1 then Inl TypeError
               else if segLen = 0 then Inl NaNValue
               else
                 (let remaining = dst - currentDist;
                      t = remaining / segLen;
                      p1 = points p ! i;
                      p2 = points p ! (i + 1)
                  in Inr \<lparr>loc_x = xc p1 + (xc p2 - xc p1) * t,
                          loc_y = yc p1 + (yc p2 - yc p1) * t,
                          loc_angle = Some (atan2 (yc p2 - yc p1) (xc p2 - xc p1))\<rparr>))
            else walkSegments p dst (i + 1) (currentDist + segLen))
      else if points p = [] then Inl TypeError
      else Inr \<lparr>loc_x = xc (last (points p)), loc_y = yc (last (points p)),
                loc_angle = None\<rparr>)"
  by pat_completeness auto
termination
  by (relation "measure (\<lambda>(p, dst, i, currentDist). length (segmentLengths p) - i)") auto

declare walkSegments.simps [simp del]

text \<open>\<^verbatim>\<open>getPointAt(distance)\<close>, the three cases in the order of the source.\<close>

definition getPointAt :: "path \<Rightarrow> real \<Rightarrow> js_error + located" where
  "getPointAt p dst =
     (if dst < 0 then
        (case points p of
           p1 # p2 # rest \<Rightarrow>
             (let angle = atan2 (yc p2 - yc p1) (xc p2 - xc p1)
              in Inr \<lparr>loc_x = xc p1 + cos angle * dst,
                      loc_y = yc p1 + sin angle * dst,
                      loc_angle = Some angle\<rparr>)
         | _ \<Rightarrow> Inl TypeError)
      else if totalLength p \<le> dst then
        (if length (points p) < 2 then Inl TypeError
         else
           (let lastPt = points p ! (length (points p) - 1);
                prev = points p ! (length (points p) - 2);
                angle = atan2 (yc lastPt - yc prev) (xc lastPt - xc prev)
            in Inr \<lparr>loc_x = xc lastPt, loc_y = yc lastPt, loc_angle = Some angle\<rparr>))
      else walkSegments p dst 0 0)"

section \<open>Collision, insertion and the pivot match check\<close>

text \<open>The object \<^verbatim>\<open>{index, ball, x, y}\<close> that \<^verbatim>\<open>checkCollision\<close> returns.\<close>

record hit =
  hit_index :: nat
  hit_ball :: ball
  hit_x :: real
  hit_y :: real

text \<open>
  \<^verbatim>\<open>checkCollision(projectile)\<close>: the loop from index \<open>i\<close>; \<open>None\<close> is the
  source's \<^verbatim>\<open>null\<close>. A TypeError thrown by \<^verbatim>\<open>getPointAt\<close> ends the call. A
  position that is not a finite number makes the comparison false, so the
  loop goes on to the next ball.
\<close>

function collisionFrom :: "chain \<Rightarrow> projectile \<Rightarrow> nat \<Rightarrow> js_error + hit option" where
  "collisionFrom c proj i =
     (if i < length (balls c) then
        (let b = balls c ! i
         in case getPointAt (chain_path c) (distance b) of
              Inl TypeError \<Rightarrow> Inl TypeError
            | Inl NaNValue \<Rightarrow> collisionFrom c proj (i + 1)
            | Inr pos \<Rightarrow>
                (let dx = loc_x pos - proj_x proj;
                     dy = loc_y pos - proj_y proj;
                     centreDist = sqrt (dx * dx + dy * dy)
                 in if centreDist < radius b + proj_radius proj
                    then Inr (Some \<lparr>hit_index = i, hit_ball = b,
                                    hit_x = loc_x pos, hit_y = loc_y pos\<rparr>)
                    else collisionFrom c proj (i + 1)))
      else Inr None)"
  by pat_completeness auto
termination
  by (relation "measure (\<lambda>(c, proj, i). length (balls c) - i)") auto

declare collisionFrom.simps [simp del]

definition checkCollision :: "chain \<Rightarrow> projectile \<Rightarrow> js_error + hit option" where
  "checkCollision c proj = collisionFrom c proj 0"




text \<open>
  The two loops of \<^verbatim>\<open>checkMatches\<close>. The backward loop is entered with
  \<open>i = n - 1\<close> while \<open>n > 0\<close>; both return the updated counters. The
  variable \<^verbatim>\<open>end\<close> of the source is written and never read, and is left out.
\<close>

fun searchBack :: "ball list \<Rightarrow> color \<Rightarrow> nat \<Rightarrow> nat \<Rightarrow> nat \<Rightarrow> nat \<times> nat" where
  "searchBack bs col 0 matchCount start = (matchCount, start)"
| "searchBack bs col (Suc i) matchCount start =
     (if color (bs ! i) = col then searchBack bs col i (matchCount + 1) i
      else (matchCount, start))"

function searchForward :: "ball list \<Rightarrow> color \<Rightarrow> nat \<Rightarrow> nat \<Rightarrow> nat" where
  "searchForward bs col i matchCount =
     (if i < length bs then
        (if color (bs ! i) = col then searchForward bs col (i + 1) (matchCount + 1)
         else matchCount)
      else matchCount)"
  by pat_completeness auto
termination
  by (relation "measure (\<lambda>(bs, col, i, matchCount). length bs - i)") auto

declare searchForward.simps [simp del]

text \<open>\<^verbatim>\<open>checkMatches(startIndex)\<close>: the new chain and the returned count.\<close>

definition checkMatches :: "int \<Rightarrow> chain \<Rightarrow> chain \<times> nat" where
  "checkMatches startIndex c =
     (if startIndex < 0 \<or> int (length (balls c)) \<le> startIndex then (c, 0)
      else
        (let s = nat startIndex;
             col = color (balls c ! s);
             (backCount, start) = searchBack (balls c) col s 1 s;
             matchCount = searchForward (balls c) col (s + 1) backCount
         in if 3 \<le> matchCount
            then (c\<lparr>balls := spliceRemove start matchCount (balls c)\<rparr>, matchCount)
            else (c, 0)))"

section \<open>Concrete chains\<close>

text \<open>
  Small inputs on which the operations are evaluated: a ball of radius 18, a
  straight path from \<open>(0, 0)\<close> to \<open>(10, 0)\<close>, and a level-1 chain that has
  spawned all its 30 balls and currently holds \<open>bs\<close>.
\<close>

definition mkBall :: "nat \<Rightarrow> color \<Rightarrow> real \<Rightarrow> ball" where
  "mkBall i col d = \<lparr>ball_id = i, color = col, distance = d, radius = 18\<rparr>"

definition linePath :: path where
  "linePath = \<lparr>points = [\<lparr>xc = 0, yc = 0\<rparr>, \<lparr>xc = 10, yc = 0\<rparr>],
                segmentLengths = [10], totalLength = 10\<rparr>"

definition fullChain :: "ball list \<Rightarrow> chain" where
  "fullChain bs =
     \<lparr>chain_path = linePath, balls = bs, ballRadius = 18, speed = 55,
      colors = [''#ff0055'', ''#00f2ff'', ''#00ff00'', ''#ffff00''],
      spawnTimer = 0, spawnInterval = 36 / 55, maxBalls = 30,
      spawnedCount = 30, nextId = 30\<rparr>"


text \<open>A red projectile of radius 18 at a given position.\<close>

definition shotAt :: "real \<Rightarrow> real \<Rightarrow> projectile" where
  "shotAt px py = \<lparr>proj_x = px, proj_y = py, proj_color = ''#ff0055'', proj_radius = 18\<rparr>"

lemmas update_eval = update_def settle_def spawnStep_def fullChain_def mkBall_def Let_def epsilon_def
  moveSegments_def advance_def pullSpeed_def resolveOverlaps_def spliceRemove_def
  matchLoop.simps extendRun.simps

section \<open>Spacing and order after a tick\<close>

text \<open>Ball \<open>b\<close> lies at least \<open>d\<close> behind ball \<open>a\<close> on the path.\<close>

definition apart :: "real \<Rightarrow> ball \<Rightarrow> ball \<Rightarrow> bool" where
  "apart d a b = (distance a + d \<le> distance b)"

lemma resolveFrom_successively:
  "successively (apart d) (prev # resolveFrom d prev bs)"
  by (induction bs arbitrary: prev) (auto simp: apart_def Let_def)

lemma resolveOverlaps_successively:
  "successively (apart d) (resolveOverlaps d bs)"
  by (cases bs) (simp_all add: resolveOverlaps_def resolveFrom_successively)

lemma apart_transp: "0 \<le> d \<Longrightarrow> transp (apart d)"
  by (auto simp: transp_def apart_def)

lemma resolveOverlaps_apart:
  "0 \<le> d \<Longrightarrow> sorted_wrt (apart d) (resolveOverlaps d bs)"
  using resolveOverlaps_successively [of d bs] apart_transp [of d]
  by (simp add: successively_conv_sorted_wrt)

lemma sorted_wrt_spliceRemove:
  assumes "sorted_wrt P xs"
  shows "sorted_wrt P (spliceRemove i n xs)"
proof -
  have "sorted_wrt P (take i xs @ drop i xs)" using assms by simp
  then have a: "sorted_wrt P (take i xs)" "sorted_wrt P (drop i xs)"
    and b: "\<forall>x\<in>set (take i xs). \<forall>y\<in>set (drop i xs). P x y"
    unfolding sorted_wrt_append by blast+
  have "drop (i + n) xs = drop n (drop i xs)" by (simp add: add.commute)
  then have c: "set (drop (i + n) xs) \<subseteq> set (drop i xs)"
    by (metis set_drop_subset)
  have "sorted_wrt P (drop (i + n) xs)" using assms by (rule sorted_wrt_drop)
  with a b c show ?thesis
    unfolding spliceRemove_def sorted_wrt_append by blast
qed

lemma matchLoop_sorted_wrt:
  "sorted_wrt P bs \<Longrightarrow> sorted_wrt P (fst (matchLoop maxGap bs i calls))"
proof (induction maxGap bs i calls rule: matchLoop.induct)
  case (1 maxGap bs i calls)
  show ?case
  proof (cases "i < length bs")
    case False
    then show ?thesis using "1.prems" by (subst matchLoop.simps) simp
  next
    case True
    obtain j n where e: "extendRun maxGap bs (color (bs ! i)) (i + 1) 1 = (j, n)"
      by (cases "extendRun maxGap bs (color (bs ! i)) (i + 1) 1")
    show ?thesis
    proof (cases "3 \<le> n")
      case True
      have "sorted_wrt P (fst (matchLoop maxGap (spliceRemove i n bs) i (calls @ [n])))"
        using "1.IH"(1) [OF \<open>i < length bs\<close> refl e [symmetric] True]
          sorted_wrt_spliceRemove [OF "1.prems"] by blast
      then show ?thesis using \<open>i < length bs\<close> e True
        by (subst matchLoop.simps) simp
    next
      case False
      have "sorted_wrt P (fst (matchLoop maxGap bs j calls))"
        using "1.IH"(2) [OF \<open>i < length bs\<close> refl e [symmetric] False] "1.prems" by blast
      then show ?thesis using \<open>i < length bs\<close> e False
        by (subst matchLoop.simps) simp
    qed
  qed
qed

lemma spawnStep_ballRadius: "ballRadius (spawnStep dt rnd c) = ballRadius c"
  by (simp add: spawnStep_def spawnBall_def Let_def split: prod.splits)

lemma update_apart:
  assumes "0 \<le> ballRadius c"
  shows "sorted_wrt (apart (ballRadius c * 2)) (balls (fst (update dt rnd c)))"
proof (cases "length (balls (spawnStep dt rnd c)) = 0")
  case True
  then show ?thesis by (simp add: update_def Let_def)
next
  case False
  from assms have d: "0 \<le> ballRadius c * 2" by simp
  show ?thesis using False
    by (simp add: update_def settle_def Let_def spawnStep_ballRadius split: prod.splits)
       (metis fst_conv matchLoop_sorted_wrt resolveOverlaps_apart d)
qed

lemma resolveFrom_length: "length (resolveFrom d prev bs) = length bs"
  by (induction bs arbitrary: prev) (simp_all add: Let_def)

lemma resolveFrom_nth:
  "i < length bs \<Longrightarrow>
   resolveFrom d prev bs ! i =
     (if distance (bs ! i) <
           distance (if i = 0 then prev else resolveFrom d prev bs ! (i - 1)) + d
      then (bs ! i)\<lparr>distance :=
             distance (if i = 0 then prev else resolveFrom d prev bs ! (i - 1)) + d\<rparr>
      else bs ! i)"
proof (induction bs arbitrary: prev i)
  case Nil
  then show ?case by simp
next
  case (Cons b bs)
  show ?case
  proof (cases i)
    case 0
    then show ?thesis by (simp add: Let_def)
  next
    case (Suc k)
    with Cons.prems have k: "k < length bs" by simp
    show ?thesis using Cons.IH [OF k] Suc
      by (cases k) (simp_all add: Let_def)
  qed
qed

lemma resolveOverlaps_length: "length (resolveOverlaps d bs) = length bs"
  by (cases bs) (simp_all add: resolveOverlaps_def resolveFrom_length)

lemma resolveOverlaps_first: "bs \<noteq> [] \<Longrightarrow> resolveOverlaps d bs ! 0 = bs ! 0"
  by (cases bs) (simp_all add: resolveOverlaps_def)

lemma resolveOverlaps_clamp:
  assumes "Suc i < length bs"
  shows "resolveOverlaps d bs ! Suc i =
     (if distance (bs ! Suc i) < distance (resolveOverlaps d bs ! i) + d
      then (bs ! Suc i)\<lparr>distance := distance (resolveOverlaps d bs ! i) + d\<rparr>
      else bs ! Suc i)"
proof -
  obtain b rest where s: "bs = b # rest" using assms by (cases bs) auto
  with assms have i: "i < length rest" by simp
  show ?thesis using resolveFrom_nth [OF i, of d b]
    by (cases i) (simp_all add: s resolveOverlaps_def)
qed

lemma update_balls:
  "length (balls (spawnStep dt rnd c)) \<noteq> 0 \<Longrightarrow>
   balls (fst (update dt rnd c)) =
     fst (matchLoop (ballRadius c * 2 + epsilon) (settle dt (spawnStep dt rnd c)) 0 [])"
  by (simp add: update_def Let_def spawnStep_ballRadius split: prod.splits)

lemma update_balls_empty:
  "length (balls (spawnStep dt rnd c)) = 0 \<Longrightarrow> balls (fst (update dt rnd c)) = []"
  by (simp add: update_def Let_def)

lemma settle_resolves:
  "settle dt c1 =
     resolveOverlaps (ballRadius c1 * 2)
       (concat (moveSegments (speed c1) (speed c1 * 4) (ballRadius c1 * 2) dt
          (identifySegments (ballRadius c1 * 2 + epsilon)
             (hd (sort_key distance (balls c1))) [hd (sort_key distance (balls c1))]
             (tl (sort_key distance (balls c1))))))"
  by (simp add: settle_def Let_def)


lemma set_spliceRemove: "set (spliceRemove i n xs) \<subseteq> set xs"
proof -
  have "set (take i xs) \<subseteq> set xs" by (rule set_take_subset)
  moreover have "set (drop (i + n) xs) \<subseteq> set xs" by (rule set_drop_subset)
  ultimately show ?thesis by (simp add: spliceRemove_def)
qed

lemma matchLoop_subset: "set (fst (matchLoop maxGap bs i calls)) \<subseteq> set bs"
proof (induction maxGap bs i calls rule: matchLoop.induct)
  case (1 maxGap bs i calls)
  show ?case
  proof (cases "i < length bs")
    case False
    then show ?thesis by (subst matchLoop.simps) simp
  next
    case True
    obtain j n where e: "extendRun maxGap bs (color (bs ! i)) (i + 1) 1 = (j, n)"
      by (cases "extendRun maxGap bs (color (bs ! i)) (i + 1) 1")
    show ?thesis
    proof (cases "3 \<le> n")
      case big: True
      have "set (fst (matchLoop maxGap (spliceRemove i n bs) i (calls @ [n])))
          \<subseteq> set (spliceRemove i n bs)"
        by (rule "1.IH"(1) [OF True refl e [symmetric] big])
      then have "set (fst (matchLoop maxGap (spliceRemove i n bs) i (calls @ [n]))) \<subseteq> set bs"
        using set_spliceRemove [of i n bs] by blast
      then show ?thesis using True e big by (subst matchLoop.simps) simp
    next
      case small: False
      have "set (fst (matchLoop maxGap bs j calls)) \<subseteq> set bs"
        by (rule "1.IH"(2) [OF True refl e [symmetric] small])
      then show ?thesis using True e small by (subst matchLoop.simps) simp
    qed
  qed
qed

text \<open>
  C1. After \<open>update\<close> the balls are sorted by ascending distance and every
  adjacent pair is at least one diameter apart, hence at least the diameter
  minus \<open>epsilon\<close>. The radius of the chain is taken as non-negative; the
  constructor sets it to 18. How this comes about is part of the statement.
  The overlap pass keeps the number of balls and the first ball, and every
  later ball is either left as it is or, when it is closer than one diameter
  to its predecessor as the pass left it, set to exactly that predecessor's
  distance plus the diameter, nothing else of it changing. The balls of the
  tick's result are what the match scan leaves of the balls after that pass,
  and the scan only takes balls out: what it returns are balls of its input,
  and any spacing that held between all pairs before holds after.
\<close>

theorem update_sorted_spaced:
  assumes "0 \<le> ballRadius c"
  shows "sorted (map distance (balls (fst (update dt rnd c)))) \<and>
     (\<forall>i. Suc i < length (balls (fst (update dt rnd c))) \<longrightarrow>
        ballRadius c * 2 \<le>
          distance (balls (fst (update dt rnd c)) ! Suc i) - distance (balls (fst (update dt rnd c)) ! i) \<and>
        ballRadius c * 2 - epsilon \<le>
          distance (balls (fst (update dt rnd c)) ! Suc i) - distance (balls (fst (update dt rnd c)) ! i)) \<and>
     length (resolveOverlaps d bs) = length bs \<and>
     (bs \<noteq> [] \<longrightarrow> resolveOverlaps d bs ! 0 = bs ! 0) \<and>
     (\<forall>i. Suc i < length bs \<longrightarrow>
        resolveOverlaps d bs ! Suc i =
          (if distance (bs ! Suc i) < distance (resolveOverlaps d bs ! i) + d
           then (bs ! Suc i)\<lparr>distance := distance (resolveOverlaps d bs ! i) + d\<rparr>
           else bs ! Suc i)) \<and>
     settle dt (spawnStep dt rnd c) =
       resolveOverlaps (ballRadius c * 2)
         (concat (moveSegments (speed (spawnStep dt rnd c)) (speed (spawnStep dt rnd c) * 4)
            (ballRadius c * 2) dt
            (identifySegments (ballRadius c * 2 + epsilon)
               (hd (sort_key distance (balls (spawnStep dt rnd c))))
               [hd (sort_key distance (balls (spawnStep dt rnd c)))]
               (tl (sort_key distance (balls (spawnStep dt rnd c))))))) \<and>
     (length (balls (spawnStep dt rnd c)) \<noteq> 0 \<longrightarrow>
        balls (fst (update dt rnd c)) =
          fst (matchLoop (ballRadius c * 2 + epsilon) (settle dt (spawnStep dt rnd c)) 0 [])) \<and>
     (length (balls (spawnStep dt rnd c)) = 0 \<longrightarrow> balls (fst (update dt rnd c)) = []) \<and>
     set (fst (matchLoop maxGap xs k calls)) \<subseteq> set xs \<and>
     (sorted_wrt (apart e) xs \<longrightarrow> sorted_wrt (apart e) (fst (matchLoop maxGap xs k calls)))"
proof -
  let ?bs = "balls (fst (update dt rnd c))"
  have a: "sorted_wrt (apart (ballRadius c * 2)) ?bs" using assms by (rule update_apart)
  have "sorted_wrt (\<lambda>a b. distance a \<le> distance b) ?bs"
  proof (rule sorted_wrt_mono_rel [OF _ a])
    fix x y assume "apart (ballRadius c * 2) x y"
    with assms show "distance x \<le> distance y" by (simp add: apart_def)
  qed
  then have s: "sorted (map distance ?bs)" by (simp add: sorted_map)
  have g: "apart (ballRadius c * 2) (?bs ! i) (?bs ! Suc i)" if "Suc i < length ?bs" for i
    using a that by (simp add: sorted_wrt_iff_nth_less)
  have sp: "\<forall>i. Suc i < length ?bs \<longrightarrow>
        ballRadius c * 2 \<le> distance (?bs ! Suc i) - distance (?bs ! i) \<and>
        ballRadius c * 2 - epsilon \<le> distance (?bs ! Suc i) - distance (?bs ! i)"
  proof (intro allI impI)
    fix i assume "Suc i < length ?bs"
    from g [OF this]
    show "ballRadius c * 2 \<le> distance (?bs ! Suc i) - distance (?bs ! i) \<and>
        ballRadius c * 2 - epsilon \<le> distance (?bs ! Suc i) - distance (?bs ! i)"
      by (simp add: apart_def epsilon_def)
  qed
  have cl: "\<forall>i. Suc i < length bs \<longrightarrow>
        resolveOverlaps d bs ! Suc i =
          (if distance (bs ! Suc i) < distance (resolveOverlaps d bs ! i) + d
           then (bs ! Suc i)\<lparr>distance := distance (resolveOverlaps d bs ! i) + d\<rparr>
           else bs ! Suc i)"
    using resolveOverlaps_clamp by blast
  have f: "bs \<noteq> [] \<longrightarrow> resolveOverlaps d bs ! 0 = bs ! 0"
    using resolveOverlaps_first by blast
  have st: "settle dt (spawnStep dt rnd c) =
       resolveOverlaps (ballRadius c * 2)
         (concat (moveSegments (speed (spawnStep dt rnd c)) (speed (spawnStep dt rnd c) * 4)
            (ballRadius c * 2) dt
            (identifySegments (ballRadius c * 2 + epsilon)
               (hd (sort_key distance (balls (spawnStep dt rnd c))))
               [hd (sort_key distance (balls (spawnStep dt rnd c)))]
               (tl (sort_key distance (balls (spawnStep dt rnd c)))))))"
    by (simp add: settle_resolves spawnStep_ballRadius)
  have u1: "length (balls (spawnStep dt rnd c)) \<noteq> 0 \<longrightarrow>
        balls (fst (update dt rnd c)) =
          fst (matchLoop (ballRadius c * 2 + epsilon) (settle dt (spawnStep dt rnd c)) 0 [])"
    using update_balls by blast
  have u2: "length (balls (spawnStep dt rnd c)) = 0 \<longrightarrow> balls (fst (update dt rnd c)) = []"
    using update_balls_empty by blast
  have ss: "set (fst (matchLoop maxGap xs k calls)) \<subseteq> set xs" by (rule matchLoop_subset)
  have sw: "sorted_wrt (apart e) xs \<longrightarrow> sorted_wrt (apart e) (fst (matchLoop maxGap xs k calls))"
    using matchLoop_sorted_wrt by blast
  show ?thesis
    by (rule conjI [OF s conjI [OF sp conjI [OF resolveOverlaps_length
          conjI [OF f conjI [OF cl conjI [OF st conjI [OF u1 conjI [OF u2 conjI [OF ss sw]]]]]]]]])
qed

theorem update_sorted_spaced_witness:
  "0 \<le> ballRadius (fullChain [mkBall 0 ''#ff0055'' 0, mkBall 1 ''#00f2ff'' 10, mkBall 2 ''#00ff00'' 100]) \<and>
   balls (fst (update 0 (\<lambda>k. 0)
     (fullChain [mkBall 0 ''#ff0055'' 0, mkBall 1 ''#00f2ff'' 10, mkBall 2 ''#00ff00'' 100]))) =
     [mkBall 0 ''#ff0055'' 0, mkBall 1 ''#00f2ff'' 36, mkBall 2 ''#00ff00'' 100] \<and>
   sorted (map distance (balls (fst (update 0 (\<lambda>k. 0)
     (fullChain [mkBall 0 ''#ff0055'' 0, mkBall 1 ''#00f2ff'' 10, mkBall 2 ''#00ff00'' 100]))))) \<and>
   Suc 0 < length (balls (fst (update 0 (\<lambda>k. 0)
     (fullChain [mkBall 0 ''#ff0055'' 0, mkBall 1 ''#00f2ff'' 10, mkBall 2 ''#00ff00'' 100])))) \<and>
   ballRadius (fullChain [mkBall 0 ''#ff0055'' 0, mkBall 1 ''#00f2ff'' 10, mkBall 2 ''#00ff00'' 100]) * 2
     \<le> distance (balls (fst (update 0 (\<lambda>k. 0)
       (fullChain [mkBall 0 ''#ff0055'' 0, mkBall 1 ''#00f2ff'' 10, mkBall 2 ''#00ff00'' 100]))) ! Suc 0) -
     distance (balls (fst (update 0 (\<lambda>k. 0)
       (fullChain [mkBall 0 ''#ff0055'' 0, mkBall 1 ''#00f2ff'' 10, mkBall 2 ''#00ff00'' 100]))) ! 0) \<and>
   [mkBall 0 ''#ff0055'' 0, mkBall 1 ''#00f2ff'' 10, mkBall 2 ''#00ff00'' 100] \<noteq> [] \<and>
   Suc 0 < length [mkBall 0 ''#ff0055'' 0, mkBall 1 ''#00f2ff'' 10, mkBall 2 ''#00ff00'' 100] \<and>
   Suc 1 < length [mkBall 0 ''#ff0055'' 0, mkBall 1 ''#00f2ff'' 10, mkBall 2 ''#00ff00'' 100] \<and>
   length (resolveOverlaps 36
     [mkBall 0 ''#ff0055'' 0, mkBall 1 ''#00f2ff'' 10, mkBall 2 ''#00ff00'' 100]) = 3 \<and>
   resolveOverlaps 36
     [mkBall 0 ''#ff0055'' 0, mkBall 1 ''#00f2ff'' 10, mkBall 2 ''#00ff00'' 100] ! 0 =
     mkBall 0 ''#ff0055'' 0 \<and>
   resolveOverlaps 36
     [mkBall 0 ''#ff0055'' 0, mkBall 1 ''#00f2ff'' 10, mkBall 2 ''#00ff00'' 100] ! Suc 0 =
     mkBall 1 ''#00f2ff'' 36 \<and>
   resolveOverlaps 36
     [mkBall 0 ''#ff0055'' 0, mkBall 1 ''#00f2ff'' 10, mkBall 2 ''#00ff00'' 100] ! Suc 1 =
     mkBall 2 ''#00ff00'' 100 \<and>
   length (balls (spawnStep 0 (\<lambda>k. 0)
     (fullChain [mkBall 0 ''#ff0055'' 0, mkBall 1 ''#00f2ff'' 10, mkBall 2 ''#00ff00'' 100]))) \<noteq> 0 \<and>
   settle 0 (spawnStep 0 (\<lambda>k. 0)
     (fullChain [mkBall 0 ''#ff0055'' 0, mkBall 1 ''#00f2ff'' 10, mkBall 2 ''#00ff00'' 100])) =
     [mkBall 0 ''#ff0055'' 0, mkBall 1 ''#00f2ff'' 36, mkBall 2 ''#00ff00'' 100] \<and>
   map distance (balls (fst (update 1 (\<lambda>k. 0)
     (fullChain [mkBall 0 ''#ff0055'' 0, mkBall 1 ''#00f2ff'' 50])))) = [55, 602 / 5]"
proof -
  let ?in = "[mkBall 0 ''#ff0055'' 0, mkBall 1 ''#00f2ff'' 10, mkBall 2 ''#00ff00'' 100]"
  let ?out = "[mkBall 0 ''#ff0055'' 0, mkBall 1 ''#00f2ff'' 36, mkBall 2 ''#00ff00'' 100]"
  let ?c = "fullChain ?in"
  let ?bs = "balls (fst (update 0 (\<lambda>k. 0) ?c))"
  have h: "0 \<le> ballRadius ?c" by (simp add: fullChain_def)
  note t = update_sorted_spaced [OF h, where dt = 0 and rnd = "\<lambda>k. 0" and d = 36 and bs = ?in]
  have sp: "spawnStep 0 (\<lambda>k. 0) ?c = ?c" by (simp add: spawnStep_def fullChain_def)
  have n: "length (balls (spawnStep 0 (\<lambda>k. 0) ?c)) \<noteq> 0" by (simp add: spawnStep_def fullChain_def)
  have ne: "?in \<noteq> []" by simp
  have l0: "Suc 0 < length ?in" and l1: "Suc 1 < length ?in" by simp_all
  from t have len0: "length (resolveOverlaps 36 ?in) = length ?in" by blast
  then have len: "length (resolveOverlaps 36 ?in) = 3" by simp
  from t ne have r0: "resolveOverlaps 36 ?in ! 0 = ?in ! 0" by blast
  then have r0': "resolveOverlaps 36 ?in ! 0 = mkBall 0 ''#ff0055'' 0" by simp
  from t l0 have r1: "resolveOverlaps 36 ?in ! Suc 0 =
          (if distance (?in ! Suc 0) < distance (resolveOverlaps 36 ?in ! 0) + 36
           then (?in ! Suc 0)\<lparr>distance := distance (resolveOverlaps 36 ?in ! 0) + 36\<rparr>
           else ?in ! Suc 0)" by blast
  have r1': "resolveOverlaps 36 ?in ! Suc 0 = mkBall 1 ''#00f2ff'' 36"
    unfolding r1 r0' by (simp add: mkBall_def)
  from t l1 have r2: "resolveOverlaps 36 ?in ! Suc 1 =
          (if distance (?in ! Suc 1) < distance (resolveOverlaps 36 ?in ! 1) + 36
           then (?in ! Suc 1)\<lparr>distance := distance (resolveOverlaps 36 ?in ! 1) + 36\<rparr>
           else ?in ! Suc 1)" by blast
  have r2': "resolveOverlaps 36 ?in ! Suc 1 = mkBall 2 ''#00ff00'' 100"
    unfolding r2 using r1' by (simp add: mkBall_def)
  have st: "settle 0 (spawnStep 0 (\<lambda>k. 0) ?c) = ?out"
    unfolding sp by (simp add: update_eval)
  from t n have "?bs = fst (matchLoop (ballRadius ?c * 2 + epsilon)
      (settle 0 (spawnStep 0 (\<lambda>k. 0) ?c)) 0 [])" by blast
  then have e: "?bs = ?out"
    unfolding st by (simp add: fullChain_def mkBall_def epsilon_def matchLoop.simps extendRun.simps)
  have l: "Suc 0 < length ?bs" using e by simp
  from t have s: "sorted (map distance ?bs)" by (rule conjunct1)
  from t l have g: "ballRadius ?c * 2 \<le> distance (?bs ! Suc 0) - distance (?bs ! 0)"
    by blast
  have m: "map distance (balls (fst (update 1 (\<lambda>k. 0)
     (fullChain [mkBall 0 ''#ff0055'' 0, mkBall 1 ''#00f2ff'' 50])))) = [55, 602 / 5]"
    by (simp add: update_eval)
  from h e s l g ne l0 l1 len r0' r1' r2' n st m show ?thesis by (intro conjI)
qed

section \<open>The match scan and the maximal runs\<close>

text \<open>
  The specification speaks of maximal runs of same-colour, contact-contiguous
  balls. These definitions follow its words, not the code: two neighbours are
  joined when they have the same colour and their gap is at most \<open>maxGap\<close>;
  \<open>contactRuns\<close> cuts a list between every two neighbours that are not joined;
  \<open>runsKept\<close> is what is left when every run of length 3 or more is taken
  out, and \<open>runsReported\<close> lists the lengths of those runs, in order.
\<close>

definition joined :: "real \<Rightarrow> ball \<Rightarrow> ball \<Rightarrow> bool" where
  "joined maxGap a b = (color b = color a \<and> distance b - distance a \<le> maxGap)"

fun contactRuns :: "real \<Rightarrow> ball list \<Rightarrow> ball list list" where
  "contactRuns maxGap [] = []"
| "contactRuns maxGap (a # bs) =
     (case contactRuns maxGap bs of
        [] \<Rightarrow> [[a]]
      | r # rs \<Rightarrow> if joined maxGap a (hd r) then (a # r) # rs else [a] # r # rs)"

definition runsKept :: "real \<Rightarrow> ball list \<Rightarrow> ball list" where
  "runsKept maxGap bs = concat (filter (\<lambda>r. length r < 3) (contactRuns maxGap bs))"

definition runsReported :: "real \<Rightarrow> ball list \<Rightarrow> nat list" where
  "runsReported maxGap bs = map length (filter (\<lambda>r. 3 \<le> length r) (contactRuns maxGap bs))"

lemma contactRuns_concat: "concat (contactRuns g bs) = bs"
  by (induction bs) (auto split: list.splits)

lemma contactRuns_nonempty: "r \<in> set (contactRuns g bs) \<Longrightarrow> r \<noteq> []"
  by (induction bs arbitrary: r) (auto split: list.splits if_splits)

lemma contactRuns_Nil_iff: "contactRuns g bs = [] \<longleftrightarrow> bs = []"
  by (cases bs) (auto split: list.splits)

lemma contactRuns_hd: "bs \<noteq> [] \<Longrightarrow> hd (hd (contactRuns g bs)) = hd bs"
  by (cases bs) (auto split: list.splits)

lemma contactRuns_joined:
  "r \<in> set (contactRuns g bs) \<Longrightarrow> successively (joined g) r"
proof (induction bs arbitrary: r)
  case Nil
  then show ?case by simp
next
  case (Cons a bs)
  show ?case
  proof (cases "contactRuns g bs")
    case Nil
    with Cons.prems show ?thesis by simp
  next
    case (Cons q qs)
    then have "q \<noteq> []" using contactRuns_nonempty [of q g bs] by simp
    with Cons Cons.prems Cons.IH show ?thesis
      by (cases q) (auto split: if_splits)
  qed
qed

lemma contactRuns_maximal:
  "successively (\<lambda>r1 r2. \<not> joined g (last r1) (hd r2)) (contactRuns g bs)"
proof (induction bs)
  case Nil
  then show ?case by simp
next
  case (Cons a bs)
  show ?case
  proof (cases "contactRuns g bs")
    case Nil
    then show ?thesis by simp
  next
    case c: (Cons q qs)
    then have "q \<noteq> []" using contactRuns_nonempty [of q g bs] by simp
    with c Cons.IH show ?thesis
      by (cases qs) auto
  qed
qed

lemma contactRuns_first:
  "r \<noteq> [] \<Longrightarrow> successively (joined g) r \<Longrightarrow>
   rest = [] \<or> \<not> joined g (last r) (hd rest) \<Longrightarrow>
   contactRuns g (r @ rest) = r # contactRuns g rest"
proof (induction r)
  case Nil
  then show ?case by simp
next
  case (Cons a r)
  show ?case
  proof (cases r)
    case Nil
    with Cons.prems show ?thesis
      by (cases rest) (auto split: list.splits simp: contactRuns_hd contactRuns_Nil_iff dest: arg_cong [where f = hd])
  next
    case c: (Cons b r')
    with Cons.prems have "contactRuns g (r @ rest) = r # contactRuns g rest"
      by (intro Cons.IH) auto
    with c Cons.prems show ?thesis by simp
  qed
qed


lemma take_Suc_drop_snoc:
  "i + n < length bs \<Longrightarrow> take (Suc n) (drop i bs) = take n (drop i bs) @ [bs ! (i + n)]"
  by (simp add: take_Suc_conv_app_nth)

lemma last_take_drop:
  assumes "0 < n" and "i + n \<le> length bs"
  shows "last (take n (drop i bs)) = bs ! (i + n - 1)"
proof -
  have l: "length (take n (drop i bs)) = n" using assms by simp
  then have "take n (drop i bs) \<noteq> []" using assms(1) by auto
  then have "last (take n (drop i bs)) = take n (drop i bs) ! (n - 1)"
    using l by (simp add: last_conv_nth)
  also have "\<dots> = drop i bs ! (n - 1)" using assms(1) by simp
  also have "\<dots> = bs ! (i + (n - 1))" using assms by simp
  finally show ?thesis using assms(1) by simp
qed

lemma extendRun_run:
  assumes "extendRun g bs col j cnt = (j', n')"
    and "0 < cnt" and "j = i + cnt" and "j \<le> length bs"
    and "successively (joined g) (take cnt (drop i bs))"
    and "color (bs ! (j - 1)) = col"
  shows "j' = i + n' \<and> j' \<le> length bs \<and> cnt \<le> n' \<and>
     successively (joined g) (take n' (drop i bs)) \<and>
     (j' < length bs \<longrightarrow> \<not> joined g (bs ! (j' - 1)) (bs ! j'))"
  using assms
proof (induction g bs col j cnt rule: extendRun.induct)
  case (1 g bs col j cnt)
  show ?case
  proof (cases "j < length bs \<and> color (bs ! j) = col \<and>
         distance (bs ! j) - distance (bs ! (j - 1)) \<le> g")
    case True
    then have jn: "joined g (bs ! (j - 1)) (bs ! j)"
      using "1.prems"(6) by (simp add: joined_def)
    have e: "extendRun g bs col (j + 1) (cnt + 1) = (j', n')"
      using "1.prems"(1) True by (simp add: extendRun_step)
    have l: "last (take cnt (drop i bs)) = bs ! (j - 1)"
      using "1.prems"(2,3,4) by (simp add: last_take_drop)
    have ne: "take cnt (drop i bs) \<noteq> []"
      using "1.prems"(2,3) True by simp
    have s: "successively (joined g) (take (cnt + 1) (drop i bs))"
      using "1.prems"(3,5) True jn l ne
      by (simp add: take_Suc_drop_snoc successively_append_iff)
    have "j' = i + n' \<and> j' \<le> length bs \<and> cnt + 1 \<le> n' \<and>
     successively (joined g) (take n' (drop i bs)) \<and>
     (j' < length bs \<longrightarrow> \<not> joined g (bs ! (j' - 1)) (bs ! j'))"
    proof (rule "1.IH" [OF True e])
      show "0 < cnt + 1" by simp
      show "j + 1 = i + (cnt + 1)" using "1.prems"(3) by simp
      show "j + 1 \<le> length bs" using True by simp
      show "successively (joined g) (take (cnt + 1) (drop i bs))" by (rule s)
      show "color (bs ! (j + 1 - 1)) = col" using True by simp
    qed
    then show ?thesis by auto
  next
    case False
    then have "(j', n') = (j, cnt)" using "1.prems"(1) extendRun_stop [OF False] by simp
    then show ?thesis using "1.prems" False by (auto simp: joined_def)
  qed
qed

lemma extendRun_first_run:
  assumes "i < length bs" and "extendRun g bs (color (bs ! i)) (i + 1) 1 = (j, n)"
  shows "j = i + n \<and> 0 < n \<and> i + n \<le> length bs \<and>
     contactRuns g (drop i bs) = take n (drop i bs) # contactRuns g (drop (i + n) bs)"
proof -
  have t1: "take 1 (drop i bs) = [bs ! i]"
    using assms(1) by (simp add: take_Suc_conv_app_nth)
  have r: "j = i + n \<and> j \<le> length bs \<and> 1 \<le> n \<and>
     successively (joined g) (take n (drop i bs)) \<and>
     (j < length bs \<longrightarrow> \<not> joined g (bs ! (j - 1)) (bs ! j))"
    using assms(1) t1 by (intro extendRun_run [OF assms(2)]) simp_all
  then have n: "0 < n" "j = i + n" "i + n \<le> length bs" by simp_all
  have ne: "take n (drop i bs) \<noteq> []" using n assms(1) by simp
  have b: "drop (i + n) bs = [] \<or> \<not> joined g (last (take n (drop i bs))) (hd (drop (i + n) bs))"
  proof (cases "i + n < length bs")
    case True
    then have "hd (drop (i + n) bs) = bs ! (i + n)" by (simp add: hd_drop_conv_nth)
    moreover have "last (take n (drop i bs)) = bs ! (i + n - 1)"
      using n by (simp add: last_take_drop)
    ultimately show ?thesis using r True n by simp
  next
    case False
    then show ?thesis by simp
  qed
  have "drop i bs = take n (drop i bs) @ drop (i + n) bs"
    by (metis add.commute append_take_drop_id drop_drop)
  then have "contactRuns g (drop i bs) = contactRuns g (take n (drop i bs) @ drop (i + n) bs)"
    by simp
  also have "\<dots> = take n (drop i bs) # contactRuns g (drop (i + n) bs)"
    using ne r b by (intro contactRuns_first) simp_all
  finally show ?thesis using n by simp
qed

lemma matchLoop_from:
  "i \<le> length bs \<Longrightarrow>
   matchLoop g bs i calls = (take i bs @ runsKept g (drop i bs), calls @ runsReported g (drop i bs))"
proof (induction g bs i calls rule: matchLoop.induct)
  case (1 g bs i calls)
  show ?case
  proof (cases "i < length bs")
    case False
    then have "matchLoop g bs i calls = (bs, calls)" by (subst matchLoop.simps) simp
    then show ?thesis using False "1.prems" by (simp add: runsKept_def runsReported_def)
  next
    case True
    obtain j n where e: "extendRun g bs (color (bs ! i)) (i + 1) 1 = (j, n)"
      by (cases "extendRun g bs (color (bs ! i)) (i + 1) 1")
    from extendRun_first_run [OF True e]
    have f: "j = i + n" "0 < n" "i + n \<le> length bs"
      "contactRuns g (drop i bs) = take n (drop i bs) # contactRuns g (drop (i + n) bs)"
      by simp_all
    have ln: "length (take n (drop i bs)) = n" using f(3) by simp
    show ?thesis
    proof (cases "3 \<le> n")
      case big: True
      have u: "matchLoop g bs i calls = matchLoop g (spliceRemove i n bs) i (calls @ [n])"
        using True e big by (subst matchLoop.simps) simp
      have il: "i \<le> length (spliceRemove i n bs)" using True by (simp add: spliceRemove_def)
      have ih: "matchLoop g (spliceRemove i n bs) i (calls @ [n]) =
          (take i (spliceRemove i n bs) @ runsKept g (drop i (spliceRemove i n bs)),
           (calls @ [n]) @ runsReported g (drop i (spliceRemove i n bs)))"
        using "1.IH"(1) [OF True refl e [symmetric] big il] .
      have t: "take i (spliceRemove i n bs) = take i bs" using True by (simp add: spliceRemove_def)
      have d: "drop i (spliceRemove i n bs) = drop (i + n) bs" using True by (simp add: spliceRemove_def)
      show ?thesis using big ln
        by (simp add: u ih t d runsKept_def runsReported_def f(4))
    next
      case small: False
      have u: "matchLoop g bs i calls = matchLoop g bs j calls"
        using True e small by (subst matchLoop.simps) simp
      have jl: "j \<le> length bs" using f by simp
      have ih: "matchLoop g bs j calls = (take j bs @ runsKept g (drop j bs), calls @ runsReported g (drop j bs))"
        using "1.IH"(2) [OF True refl e [symmetric] small jl] .
      have t: "take (i + n) bs = take i bs @ take n (drop i bs)" by (simp add: take_add)
      from u ih have "matchLoop g bs i calls =
          (take (i + n) bs @ runsKept g (drop (i + n) bs), calls @ runsReported g (drop (i + n) bs))"
        by (simp add: f(1))
      then show ?thesis using small ln
        by (simp add: t runsKept_def runsReported_def f(4))
    qed
  qed
qed

lemma matchLoop_same_index:
  "i < length bs \<Longrightarrow> extendRun maxGap bs (color (bs ! i)) (i + 1) 1 = (j, n) \<Longrightarrow> 3 \<le> n \<Longrightarrow>
   matchLoop maxGap bs i calls = matchLoop maxGap (spliceRemove i n bs) i (calls @ [n])"
  by (subst matchLoop.simps) simp

lemma update_runs:
  assumes "length (balls (spawnStep dt rnd c)) \<noteq> 0"
  shows "update dt rnd c =
     ((spawnStep dt rnd c)\<lparr>balls :=
         runsKept (ballRadius c * 2 + epsilon) (settle dt (spawnStep dt rnd c))\<rparr>,
      runsReported (ballRadius c * 2 + epsilon) (settle dt (spawnStep dt rnd c)))"
  using assms by (simp add: update_def Let_def matchLoop_from spawnStep_ballRadius)

text \<open>
  C2. The match scan of \<open>update\<close> removes exactly the maximal runs of
  same-colour, contact-contiguous balls that have length 3 or more, and calls
  \<open>onMatch\<close> once per removed run with its length, in order: a run of 2 stays,
  a run of 3 goes entirely, a run of 5 gives the single call \<open>5\<close>. The runs
  are a partition of the list into non-empty blocks of joined neighbours that
  cannot be extended. After a removal the loop goes on at the same index.
\<close>

theorem matchLoop_removes_runs:
  "matchLoop maxGap bs 0 [] = (runsKept maxGap bs, runsReported maxGap bs) \<and>
   concat (contactRuns maxGap bs) = bs \<and>
   (\<forall>r \<in> set (contactRuns maxGap bs). r \<noteq> [] \<and> successively (joined maxGap) r) \<and>
   successively (\<lambda>r1 r2. \<not> joined maxGap (last r1) (hd r2)) (contactRuns maxGap bs) \<and>
   (length (balls (spawnStep dt rnd c)) \<noteq> 0 \<longrightarrow>
      update dt rnd c =
        ((spawnStep dt rnd c)\<lparr>balls :=
            runsKept (ballRadius c * 2 + epsilon) (settle dt (spawnStep dt rnd c))\<rparr>,
         runsReported (ballRadius c * 2 + epsilon) (settle dt (spawnStep dt rnd c)))) \<and>
   (\<forall>i j n calls.
      i < length bs \<and> extendRun maxGap bs (color (bs ! i)) (i + 1) 1 = (j, n) \<and> 3 \<le> n \<longrightarrow>
      matchLoop maxGap bs i calls = matchLoop maxGap (spliceRemove i n bs) i (calls @ [n]))"
proof (intro conjI ballI allI impI)
  show "matchLoop maxGap bs 0 [] = (runsKept maxGap bs, runsReported maxGap bs)"
    by (simp add: matchLoop_from)
  show "concat (contactRuns maxGap bs) = bs" by (rule contactRuns_concat)
  show "successively (\<lambda>r1 r2. \<not> joined maxGap (last r1) (hd r2)) (contactRuns maxGap bs)"
    by (rule contactRuns_maximal)
next
  fix r assume "r \<in> set (contactRuns maxGap bs)"
  then show "r \<noteq> []" by (rule contactRuns_nonempty)
next
  fix r assume "r \<in> set (contactRuns maxGap bs)"
  then show "successively (joined maxGap) r" by (rule contactRuns_joined)
next
  assume "length (balls (spawnStep dt rnd c)) \<noteq> 0"
  then show "update dt rnd c =
        ((spawnStep dt rnd c)\<lparr>balls :=
            runsKept (ballRadius c * 2 + epsilon) (settle dt (spawnStep dt rnd c))\<rparr>,
         runsReported (ballRadius c * 2 + epsilon) (settle dt (spawnStep dt rnd c)))"
    by (rule update_runs)
next
  fix i j n calls
  assume "i < length bs \<and> extendRun maxGap bs (color (bs ! i)) (i + 1) 1 = (j, n) \<and> 3 \<le> n"
  then show "matchLoop maxGap bs i calls = matchLoop maxGap (spliceRemove i n bs) i (calls @ [n])"
    using matchLoop_same_index by blast
qed

theorem matchLoop_removes_runs_witness:
  "contactRuns 38 [mkBall 0 ''#ff0055'' 0, mkBall 1 ''#ff0055'' 36, mkBall 2 ''#ff0055'' 72,
       mkBall 3 ''#ff0055'' 108, mkBall 4 ''#ff0055'' 144, mkBall 5 ''#00f2ff'' 180,
       mkBall 6 ''#00f2ff'' 216] =
     [[mkBall 0 ''#ff0055'' 0, mkBall 1 ''#ff0055'' 36, mkBall 2 ''#ff0055'' 72,
       mkBall 3 ''#ff0055'' 108, mkBall 4 ''#ff0055'' 144],
      [mkBall 5 ''#00f2ff'' 180, mkBall 6 ''#00f2ff'' 216]] \<and>
   matchLoop 38 [mkBall 0 ''#ff0055'' 0, mkBall 1 ''#ff0055'' 36, mkBall 2 ''#ff0055'' 72,
       mkBall 3 ''#ff0055'' 108, mkBall 4 ''#ff0055'' 144, mkBall 5 ''#00f2ff'' 180,
       mkBall 6 ''#00f2ff'' 216] 0 [] =
     ([mkBall 5 ''#00f2ff'' 180, mkBall 6 ''#00f2ff'' 216], [5]) \<and>
   length (balls (spawnStep 0 (\<lambda>k. 0)
     (fullChain [mkBall 0 ''#ff0055'' 0, mkBall 1 ''#ff0055'' 36, mkBall 2 ''#ff0055'' 72]))) \<noteq> 0 \<and>
   update 0 (\<lambda>k. 0)
     (fullChain [mkBall 0 ''#ff0055'' 0, mkBall 1 ''#ff0055'' 36, mkBall 2 ''#ff0055'' 72]) =
     (fullChain [], [3])"
proof -
  let ?bs = "[mkBall 0 ''#ff0055'' 0, mkBall 1 ''#ff0055'' 36, mkBall 2 ''#ff0055'' 72,
       mkBall 3 ''#ff0055'' 108, mkBall 4 ''#ff0055'' 144, mkBall 5 ''#00f2ff'' 180,
       mkBall 6 ''#00f2ff'' 216]"
  let ?c = "fullChain [mkBall 0 ''#ff0055'' 0, mkBall 1 ''#ff0055'' 36, mkBall 2 ''#ff0055'' 72]"
  note t = matchLoop_removes_runs [of 38 ?bs 0 "\<lambda>k. 0" ?c]
  have r: "contactRuns 38 ?bs =
     [[mkBall 0 ''#ff0055'' 0, mkBall 1 ''#ff0055'' 36, mkBall 2 ''#ff0055'' 72,
       mkBall 3 ''#ff0055'' 108, mkBall 4 ''#ff0055'' 144],
      [mkBall 5 ''#00f2ff'' 180, mkBall 6 ''#00f2ff'' 216]]"
    by (simp add: joined_def mkBall_def)
  have k: "(runsKept 38 ?bs, runsReported 38 ?bs) =
      ([mkBall 5 ''#00f2ff'' 180, mkBall 6 ''#00f2ff'' 216], [5])"
    unfolding runsKept_def runsReported_def r by simp
  have m: "matchLoop 38 ?bs 0 [] = ([mkBall 5 ''#00f2ff'' 180, mkBall 6 ''#00f2ff'' 216], [5])"
    using t [THEN conjunct1] k by (rule trans)
  have n: "length (balls (spawnStep 0 (\<lambda>k. 0) ?c)) \<noteq> 0"
    by (simp add: spawnStep_def fullChain_def)
  have s: "spawnStep 0 (\<lambda>k. 0) ?c = ?c" by (simp add: spawnStep_def fullChain_def)
  have st: "settle 0 ?c = [mkBall 0 ''#ff0055'' 0, mkBall 1 ''#ff0055'' 36, mkBall 2 ''#ff0055'' 72]"
    by (simp add: update_eval)
  have u0: "update 0 (\<lambda>k. 0) ?c =
        ((spawnStep 0 (\<lambda>k. 0) ?c)\<lparr>balls :=
            runsKept (ballRadius ?c * 2 + epsilon) (settle 0 (spawnStep 0 (\<lambda>k. 0) ?c))\<rparr>,
         runsReported (ballRadius ?c * 2 + epsilon) (settle 0 (spawnStep 0 (\<lambda>k. 0) ?c)))"
    using t n by blast
  have u: "update 0 (\<lambda>k. 0) ?c = (fullChain [], [3])"
    unfolding u0 s st
    by (simp add: runsKept_def runsReported_def joined_def mkBall_def fullChain_def epsilon_def)
  from r m n u show ?thesis by (intro conjI)
qed

section \<open>The motion step\<close>

text \<open>
  C3. Segment 0 advances at the base speed, and every later segment is meant
  to move in the negative distance direction, with the speed
  \<open>attractionSpeed * (0.5 + min (gap / 50) 1.5)\<close>; the comment in the source
  says so too (the velocity is negative, the balls move back to close the
  gap). The code does not always do that. With two balls at 0 and 50, speed 55
  and \<open>dt = 1\<close> the balls form two segments whose gap before the tick is
  \<open>50 - 0 - 36 = 14\<close>, for which the velocity would be \<open>-171.6\<close>. The first
  ball is moved to 55 before the gap of the second segment is read, so the
  gap read is \<open>50 - 55 - 36 = -41\<close>, the velocity is
  \<open>- 220 * (0.5 - 0.82) = 70.4\<close>, and the second ball moves forward, from 50 to
  120.4.
\<close>

theorem pull_moves_forward:
  "identifySegments (18 * 2 + epsilon) (mkBall 0 ''#ff0055'' 0) [mkBall 0 ''#ff0055'' 0]
       [mkBall 1 ''#00f2ff'' 50] =
     [[mkBall 0 ''#ff0055'' 0], [mkBall 1 ''#00f2ff'' 50]] \<and>
   moveSegments 55 (55 * 4) (18 * 2) 1 [[mkBall 0 ''#ff0055'' 0], [mkBall 1 ''#00f2ff'' 50]] =
     [[mkBall 0 ''#ff0055'' 55], [mkBall 1 ''#00f2ff'' (602 / 5)]] \<and>
   settle 1 (fullChain [mkBall 0 ''#ff0055'' 0, mkBall 1 ''#00f2ff'' 50]) =
     [mkBall 0 ''#ff0055'' 55, mkBall 1 ''#00f2ff'' (602 / 5)] \<and>
   balls (fst (update 1 (\<lambda>k. 0) (fullChain [mkBall 0 ''#ff0055'' 0, mkBall 1 ''#00f2ff'' 50]))) =
     [mkBall 0 ''#ff0055'' 55, mkBall 1 ''#00f2ff'' (602 / 5)] \<and>
   pullSpeed (55 * 4) (50 - 0 - 18 * 2) = - (858 / 5) \<and>
   pullSpeed (55 * 4) (50 - 55 - 18 * 2) = 352 / 5 \<and>
   distance (mkBall 1 ''#00f2ff'' 50) < distance (mkBall 1 ''#00f2ff'' (602 / 5))"
  by (simp add: update_eval)

section \<open>Insertion\<close>












section \<open>The ends of the path\<close>

lemma sqrt_ratio:
  assumes "x \<noteq> 0"
  shows "sqrt (1 + (y / x)\<^sup>2) = hypot x y / \<bar>x\<bar>"
proof -
  have "1 + (y / x)\<^sup>2 = (x * x + y * y) / x\<^sup>2"
    using assms by (simp add: field_simps power2_eq_square)
  then show ?thesis by (simp add: hypot_def real_sqrt_divide)
qed

lemma hypot_pos: "x \<noteq> 0 \<or> y \<noteq> 0 \<Longrightarrow> 0 < hypot x y"
proof -
  assume "x \<noteq> 0 \<or> y \<noteq> 0"
  then have "0 < x * x + y * y"
    by (metis add.commute add_pos_nonneg not_real_square_gt_zero zero_le_square)
  then show ?thesis by (simp add: hypot_def)
qed

lemma cos_atan2: "x \<noteq> 0 \<or> y \<noteq> 0 \<Longrightarrow> cos (atan2 y x) = x / hypot x y"
proof -
  assume nz: "x \<noteq> 0 \<or> y \<noteq> 0"
  consider "0 < x" | "x < 0" | "x = 0" "0 < y" | "x = 0" "y < 0" using nz by linarith
  then show ?thesis
  proof cases
    case 1
    then show ?thesis by (simp add: atan2_def cos_arctan sqrt_ratio)
  next
    case 2
    then show ?thesis by (simp add: atan2_def cos_arctan sqrt_ratio)
  next
    case 3
    then show ?thesis by (simp add: atan2_def)
  next
    case 4
    then show ?thesis by (simp add: atan2_def)
  qed
qed

lemma sin_atan2: "x \<noteq> 0 \<or> y \<noteq> 0 \<Longrightarrow> sin (atan2 y x) = y / hypot x y"
proof -
  assume nz: "x \<noteq> 0 \<or> y \<noteq> 0"
  consider "0 < x" | "x < 0" | "x = 0" "0 < y" | "x = 0" "y < 0" using nz by linarith
  then show ?thesis
  proof cases
    case 1
    then show ?thesis by (simp add: atan2_def sin_arctan sqrt_ratio)
  next
    case 2
    then show ?thesis by (simp add: atan2_def sin_arctan sqrt_ratio)
  next
    case 3
    then show ?thesis by (simp add: atan2_def hypot_def)
  next
    case 4
    then show ?thesis by (simp add: atan2_def hypot_def)
  qed
qed

lemma foldl_add_nonneg: "0 \<le> (a::real) \<Longrightarrow> \<forall>x \<in> set xs. 0 \<le> x \<Longrightarrow> 0 \<le> foldl (+) a xs"
  by (induction xs arbitrary: a) auto

lemma totalLength_pathOf: "0 \<le> totalLength (pathOf pts)"
  by (simp add: pathOf_def) (rule foldl_add_nonneg, auto simp: measureSegments_def hypot_def)


lemma newPath_wellformed:
  "\<exists>p1 p2 rest. points (newPath width height) = p1 # p2 # rest"
  "0 \<le> totalLength (newPath width height)"
proof -
  have "length (points (newPath width height)) = 501"
    by (simp add: newPath_def pathOf_def)
  then show "\<exists>p1 p2 rest. points (newPath width height) = p1 # p2 # rest"
    by (cases "points (newPath width height)" rule: remdups_adj.cases) auto
  show "0 \<le> totalLength (newPath width height)"
    by (simp add: newPath_def totalLength_pathOf)
qed

text \<open>
  C5. \<open>getPointAt\<close> is a function of the path and the distance alone. On a
  path with at least two points and a non-negative total length (every path
  the constructor builds is one, by \<open>newPath_wellformed\<close>): for a negative
  distance the result is the first point plus the distance times the unit
  vector of the first segment, the angle being that segment's direction, so
  with first points \<open>(0, 0)\<close> and \<open>(10, 0)\<close> the point at \<open>-10\<close> is \<open>(-10, 0)\<close>;
  for a distance at or beyond the total length the result is the last point
  with the direction of the last segment, in particular at the total length
  plus 100.
\<close>

theorem getPointAt_boundaries:
  assumes "points p = p1 # p2 # rest" and "0 \<le> totalLength p"
  shows
    "(d < 0 \<longrightarrow>
        getPointAt p d =
          Inr \<lparr>loc_x = xc p1 + cos (atan2 (yc p2 - yc p1) (xc p2 - xc p1)) * d,
               loc_y = yc p1 + sin (atan2 (yc p2 - yc p1) (xc p2 - xc p1)) * d,
               loc_angle = Some (atan2 (yc p2 - yc p1) (xc p2 - xc p1))\<rparr>) \<and>
     (d < 0 \<and> (xc p2 \<noteq> xc p1 \<or> yc p2 \<noteq> yc p1) \<longrightarrow>
        getPointAt p d =
          Inr \<lparr>loc_x = xc p1 + (xc p2 - xc p1) / hypot (xc p2 - xc p1) (yc p2 - yc p1) * d,
               loc_y = yc p1 + (yc p2 - yc p1) / hypot (xc p2 - xc p1) (yc p2 - yc p1) * d,
               loc_angle = Some (atan2 (yc p2 - yc p1) (xc p2 - xc p1))\<rparr>) \<and>
     (xc p1 = 0 \<and> yc p1 = 0 \<and> xc p2 = 10 \<and> yc p2 = 0 \<longrightarrow>
        getPointAt p (- 10) = Inr \<lparr>loc_x = - 10, loc_y = 0, loc_angle = Some 0\<rparr>) \<and>
     (totalLength p \<le> d \<longrightarrow>
        getPointAt p d =
          Inr \<lparr>loc_x = xc (last (points p)), loc_y = yc (last (points p)),
               loc_angle = Some (atan2
                 (yc (last (points p)) - yc (points p ! (length (points p) - 2)))
                 (xc (last (points p)) - xc (points p ! (length (points p) - 2))))\<rparr>) \<and>
     getPointAt p (totalLength p + 100) =
       Inr \<lparr>loc_x = xc (last (points p)), loc_y = yc (last (points p)),
            loc_angle = Some (atan2
              (yc (last (points p)) - yc (points p ! (length (points p) - 2)))
              (xc (last (points p)) - xc (points p ! (length (points p) - 2))))\<rparr>"
proof -
  let ?a = "atan2 (yc p2 - yc p1) (xc p2 - xc p1)"
  let ?end = "Inr \<lparr>loc_x = xc (last (points p)), loc_y = yc (last (points p)),
            loc_angle = Some (atan2
              (yc (last (points p)) - yc (points p ! (length (points p) - 2)))
              (xc (last (points p)) - xc (points p ! (length (points p) - 2))))\<rparr>"
  have neg: "getPointAt p d =
          Inr \<lparr>loc_x = xc p1 + cos ?a * d, loc_y = yc p1 + sin ?a * d, loc_angle = Some ?a\<rparr>"
    if "d < 0" for d
    using that assms(1) by (simp add: getPointAt_def Let_def)
  have l: "points p ! (length (points p) - 1) = last (points p)"
    using assms(1) by (simp add: last_conv_nth)
  have far: "getPointAt p d = ?end" if "totalLength p \<le> d" for d
  proof -
    from that assms(2) have "\<not> d < 0" by simp
    then show ?thesis using that assms(1) l by (simp add: getPointAt_def Let_def)
  qed
  show ?thesis
  proof (intro conjI impI)
    assume "d < 0"
    then show "getPointAt p d =
          Inr \<lparr>loc_x = xc p1 + cos ?a * d, loc_y = yc p1 + sin ?a * d, loc_angle = Some ?a\<rparr>"
      by (rule neg)
  next
    assume a: "d < 0 \<and> (xc p2 \<noteq> xc p1 \<or> yc p2 \<noteq> yc p1)"
    then have nz: "xc p2 - xc p1 \<noteq> 0 \<or> yc p2 - yc p1 \<noteq> 0" by simp
    from a neg have "getPointAt p d =
          Inr \<lparr>loc_x = xc p1 + cos ?a * d, loc_y = yc p1 + sin ?a * d, loc_angle = Some ?a\<rparr>"
      by simp
    then show "getPointAt p d =
          Inr \<lparr>loc_x = xc p1 + (xc p2 - xc p1) / hypot (xc p2 - xc p1) (yc p2 - yc p1) * d,
               loc_y = yc p1 + (yc p2 - yc p1) / hypot (xc p2 - xc p1) (yc p2 - yc p1) * d,
               loc_angle = Some ?a\<rparr>"
      by (simp only: cos_atan2 [OF nz] sin_atan2 [OF nz])
  next
    assume "xc p1 = 0 \<and> yc p1 = 0 \<and> xc p2 = 10 \<and> yc p2 = 0"
    then show "getPointAt p (- 10) = Inr \<lparr>loc_x = - 10, loc_y = 0, loc_angle = Some 0\<rparr>"
      using neg [of "- 10"] by (simp add: atan2_def)
  next
    assume "totalLength p \<le> d"
    then show "getPointAt p d = ?end" by (rule far)
  next
    show "getPointAt p (totalLength p + 100) = ?end" by (rule far) simp
  qed
qed

theorem getPointAt_boundaries_witness:
  "points linePath = \<lparr>xc = 0, yc = 0\<rparr> # \<lparr>xc = 10, yc = 0\<rparr> # [] \<and>
   0 \<le> totalLength linePath \<and>
   getPointAt linePath (- 10) = Inr \<lparr>loc_x = - 10, loc_y = 0, loc_angle = Some 0\<rparr> \<and>
   getPointAt linePath (- 3) = Inr \<lparr>loc_x = - 3, loc_y = 0, loc_angle = Some 0\<rparr> \<and>
   getPointAt linePath (totalLength linePath + 100) =
     Inr \<lparr>loc_x = 10, loc_y = 0, loc_angle = Some 0\<rparr>"
proof -
  have h: "points linePath = \<lparr>xc = 0, yc = 0\<rparr> # \<lparr>xc = 10, yc = 0\<rparr> # []"
    "0 \<le> totalLength linePath"
    by (simp_all add: linePath_def)
  note t = getPointAt_boundaries [OF h]
  have a: "getPointAt linePath (- 10) = Inr \<lparr>loc_x = - 10, loc_y = 0, loc_angle = Some 0\<rparr>"
    using t [of 0] by simp
  have b: "getPointAt linePath (- 3) = Inr \<lparr>loc_x = - 3, loc_y = 0, loc_angle = Some 0\<rparr>"
    using t [of "- 3"] by (simp add: hypot_def atan2_def)
  have c: "getPointAt linePath (totalLength linePath + 100) =
     Inr \<lparr>loc_x = 10, loc_y = 0, loc_angle = Some 0\<rparr>"
    using t [of 0] by (simp add: linePath_def atan2_def)
  from h a b c show ?thesis by (intro conjI)
qed

section \<open>The pivot match check\<close>

lemma searchBack_run:
  "searchBack bs col n mc n = (mc', st') \<Longrightarrow>
   st' \<le> n \<and> mc' = mc + (n - st') \<and>
   (\<forall>k. st' \<le> k \<and> k < n \<longrightarrow> color (bs ! k) = col) \<and>
   (st' = 0 \<or> color (bs ! (st' - 1)) \<noteq> col)"
proof (induction n arbitrary: mc)
  case 0
  then show ?case by simp
next
  case (Suc i)
  show ?case
  proof (cases "color (bs ! i) = col")
    case True
    with Suc.prems have "searchBack bs col i (mc + 1) i = (mc', st')" by simp
    from Suc.IH [OF this] have ih: "st' \<le> i" "mc' = mc + 1 + (i - st')"
      "\<forall>k. st' \<le> k \<and> k < i \<longrightarrow> color (bs ! k) = col"
      "st' = 0 \<or> color (bs ! (st' - 1)) \<noteq> col" by simp_all
    have "\<forall>k. st' \<le> k \<and> k < Suc i \<longrightarrow> color (bs ! k) = col"
      using ih(3) True by (auto simp: less_Suc_eq)
    with ih show ?thesis by simp
  next
    case False
    with Suc.prems show ?thesis by auto
  qed
qed

lemma searchForward_run:
  "searchForward bs col i mc = mc' \<Longrightarrow> i \<le> length bs \<Longrightarrow>
   \<exists>n. mc' = mc + n \<and> i + n \<le> length bs \<and>
     (\<forall>k. i \<le> k \<and> k < i + n \<longrightarrow> color (bs ! k) = col) \<and>
     (i + n = length bs \<or> color (bs ! (i + n)) \<noteq> col)"
proof (induction bs col i mc rule: searchForward.induct)
  case (1 bs col i mc)
  show ?case
  proof (cases "i < length bs \<and> color (bs ! i) = col")
    case True
    then have "searchForward bs col i mc = searchForward bs col (i + 1) (mc + 1)"
      by (subst searchForward.simps) simp
    with "1.prems" have e: "searchForward bs col (i + 1) (mc + 1) = mc'" by simp
    from True have "i + 1 \<le> length bs" by simp
    from "1.IH" [OF _ _ e this] True
    obtain n where ih: "mc' = mc + 1 + n" "i + 1 + n \<le> length bs"
      "\<forall>k. i + 1 \<le> k \<and> k < i + 1 + n \<longrightarrow> color (bs ! k) = col"
      "i + 1 + n = length bs \<or> color (bs ! (i + 1 + n)) \<noteq> col"
      by auto
    have "\<forall>k. i \<le> k \<and> k < i + (n + 1) \<longrightarrow> color (bs ! k) = col"
    proof (intro allI impI)
      fix k assume k: "i \<le> k \<and> k < i + (n + 1)"
      show "color (bs ! k) = col"
      proof (cases "k = i")
        case True
        then show ?thesis using \<open>i < length bs \<and> color (bs ! i) = col\<close> by simp
      next
        case False
        with k have "i + 1 \<le> k \<and> k < i + 1 + n" by simp
        with ih(3) show ?thesis by blast
      qed
    qed
    with ih show ?thesis by (intro exI [of _ "n + 1"]) (simp add: add.assoc add.commute)
  next
    case False
    then have "searchForward bs col i mc = mc" by (subst searchForward.simps) auto
    with "1.prems" False show ?thesis by (intro exI [of _ 0]) auto
  qed
qed

lemma checkMatches_outside:
  "startIndex < 0 \<or> int (length (balls c)) \<le> startIndex \<Longrightarrow> checkMatches startIndex c = (c, 0)"
  by (simp add: checkMatches_def)

lemma checkMatches_inside:
  assumes "0 \<le> startIndex" and "startIndex < int (length (balls c))"
  shows "\<exists>start count.
     start \<le> nat startIndex \<and> nat startIndex < start + count \<and>
     start + count \<le> length (balls c) \<and>
     (\<forall>k. start \<le> k \<and> k < start + count \<longrightarrow>
        color (balls c ! k) = color (balls c ! nat startIndex)) \<and>
     (start = 0 \<or> color (balls c ! (start - 1)) \<noteq> color (balls c ! nat startIndex)) \<and>
     (start + count = length (balls c) \<or>
        color (balls c ! (start + count)) \<noteq> color (balls c ! nat startIndex)) \<and>
     checkMatches startIndex c =
       (if 3 \<le> count
        then (c\<lparr>balls := take start (balls c) @ drop (start + count) (balls c)\<rparr>, count)
        else (c, 0))"
proof -
  let ?s = "nat startIndex"
  let ?bs = "balls c"
  let ?col = "color (?bs ! ?s)"
  from assms have s: "?s < length ?bs" by simp
  obtain bc st where b: "searchBack ?bs ?col ?s 1 ?s = (bc, st)"
    by (cases "searchBack ?bs ?col ?s 1 ?s")
  from searchBack_run [OF b] have bk: "st \<le> ?s" "bc = 1 + (?s - st)"
    "\<forall>k. st \<le> k \<and> k < ?s \<longrightarrow> color (?bs ! k) = ?col"
    "st = 0 \<or> color (?bs ! (st - 1)) \<noteq> ?col" by simp_all
  from s have "?s + 1 \<le> length ?bs" by simp
  from searchForward_run [OF refl this, of ?col bc]
  obtain n where fw: "searchForward ?bs ?col (?s + 1) bc = bc + n" "?s + 1 + n \<le> length ?bs"
    "\<forall>k. ?s + 1 \<le> k \<and> k < ?s + 1 + n \<longrightarrow> color (?bs ! k) = ?col"
    "?s + 1 + n = length ?bs \<or> color (?bs ! (?s + 1 + n)) \<noteq> ?col" by blast
  let ?count = "bc + n"
  have e: "st + ?count = ?s + 1 + n" using bk(1,2) by simp
  have all: "\<forall>k. st \<le> k \<and> k < st + ?count \<longrightarrow> color (?bs ! k) = ?col"
  proof (intro allI impI)
    fix k assume k: "st \<le> k \<and> k < st + ?count"
    consider "k < ?s" | "k = ?s" | "?s + 1 \<le> k" by linarith
    then show "color (?bs ! k) = ?col"
    proof cases
      case 1
      with k bk(3) show ?thesis by blast
    next
      case 2
      then show ?thesis by simp
    next
      case 3
      with k e fw(3) show ?thesis by simp
    qed
  qed
  have r: "checkMatches startIndex c =
       (if 3 \<le> ?count
        then (c\<lparr>balls := take st ?bs @ drop (st + ?count) ?bs\<rparr>, ?count)
        else (c, 0))"
    using assms b fw(1) by (simp add: checkMatches_def Let_def spliceRemove_def)
  show ?thesis
  proof (rule exI [of _ st], rule exI [of _ ?count], intro conjI)
    show "st \<le> ?s" by (rule bk(1))
    show "?s < st + ?count" using e by simp
    show "st + ?count \<le> length ?bs" using e fw(2) by simp
    show "\<forall>k. st \<le> k \<and> k < st + ?count \<longrightarrow> color (?bs ! k) = ?col" by (rule all)
    show "st = 0 \<or> color (?bs ! (st - 1)) \<noteq> ?col" by (rule bk(4))
    show "st + ?count = length ?bs \<or> color (?bs ! (st + ?count)) \<noteq> ?col"
      using fw(4) unfolding e .
    show "checkMatches startIndex c =
       (if 3 \<le> ?count
        then (c\<lparr>balls := take st ?bs @ drop (st + ?count) ?bs\<rparr>, ?count)
        else (c, 0))" by (rule r)
  qed
qed


text \<open>
  C6. With an index below 0 or not below the number of balls, \<open>checkMatches\<close>
  returns 0 and the chain as it was. With an index inside, there is a block
  \<open>[start, start + count)\<close> that contains the index, holds only balls of the
  colour at the index and cannot be extended on either side; if \<open>count\<close> is
  at least 3 the block is removed and \<open>count\<close> returned, otherwise 0 is
  returned and the chain is as it was.
\<close>

theorem checkMatches_threshold:
  "(startIndex < 0 \<or> int (length (balls c)) \<le> startIndex \<longrightarrow>
      checkMatches startIndex c = (c, 0)) \<and>
   (0 \<le> startIndex \<and> startIndex < int (length (balls c)) \<longrightarrow>
      (\<exists>start count.
         start \<le> nat startIndex \<and> nat startIndex < start + count \<and>
         start + count \<le> length (balls c) \<and>
         (\<forall>k. start \<le> k \<and> k < start + count \<longrightarrow>
            color (balls c ! k) = color (balls c ! nat startIndex)) \<and>
         (start = 0 \<or> color (balls c ! (start - 1)) \<noteq> color (balls c ! nat startIndex)) \<and>
         (start + count = length (balls c) \<or>
            color (balls c ! (start + count)) \<noteq> color (balls c ! nat startIndex)) \<and>
         checkMatches startIndex c =
           (if 3 \<le> count
            then (c\<lparr>balls := take start (balls c) @ drop (start + count) (balls c)\<rparr>, count)
            else (c, 0))))"
  using checkMatches_outside [of startIndex c] checkMatches_inside [of startIndex c]
  by blast

theorem checkMatches_threshold_witness:
  "checkMatches (- 1)
     (fullChain [mkBall 0 ''#ff0055'' 0, mkBall 30 ''#ff0055'' 36, mkBall 1 ''#00f2ff'' 72]) =
     (fullChain [mkBall 0 ''#ff0055'' 0, mkBall 30 ''#ff0055'' 36, mkBall 1 ''#00f2ff'' 72], 0) \<and>
   checkMatches 3
     (fullChain [mkBall 0 ''#ff0055'' 0, mkBall 30 ''#ff0055'' 36, mkBall 1 ''#00f2ff'' 72]) =
     (fullChain [mkBall 0 ''#ff0055'' 0, mkBall 30 ''#ff0055'' 36, mkBall 1 ''#00f2ff'' 72], 0) \<and>
   (0::int) \<le> 1 \<and>
   1 < int (length (balls
     (fullChain [mkBall 0 ''#ff0055'' 0, mkBall 30 ''#ff0055'' 36, mkBall 1 ''#00f2ff'' 72]))) \<and>
   checkMatches 1
     (fullChain [mkBall 0 ''#ff0055'' 0, mkBall 30 ''#ff0055'' 36, mkBall 1 ''#00f2ff'' 72]) =
     (fullChain [mkBall 0 ''#ff0055'' 0, mkBall 30 ''#ff0055'' 36, mkBall 1 ''#00f2ff'' 72], 0) \<and>
   checkMatches 1
     (fullChain [mkBall 0 ''#ff0055'' 0, mkBall 1 ''#ff0055'' 36, mkBall 2 ''#ff0055'' 72,
                 mkBall 3 ''#00f2ff'' 108]) =
     (fullChain [mkBall 3 ''#00f2ff'' 108], 3)"
proof -
  let ?a = "fullChain [mkBall 0 ''#ff0055'' 0, mkBall 30 ''#ff0055'' 36, mkBall 1 ''#00f2ff'' 72]"
  let ?b = "fullChain [mkBall 0 ''#ff0055'' 0, mkBall 1 ''#ff0055'' 36, mkBall 2 ''#ff0055'' 72,
                 mkBall 3 ''#00f2ff'' 108]"
  have o1: "checkMatches (- 1) ?a = (?a, 0)"
    using checkMatches_threshold [of "- 1" ?a] by simp
  have o2: "checkMatches 3 ?a = (?a, 0)"
    using checkMatches_threshold [of 3 ?a] by (simp add: fullChain_def)
  have h: "(0::int) \<le> 1" "1 < int (length (balls ?a))" by (simp_all add: fullChain_def)
  have i1: "checkMatches 1 ?a = (?a, 0)"
    using checkMatches_threshold [of 1 ?a]
    by (simp add: checkMatches_def Let_def fullChain_def mkBall_def searchForward.simps)
  have i2: "checkMatches 1 ?b = (fullChain [mkBall 3 ''#00f2ff'' 108], 3)"
    using checkMatches_threshold [of 1 ?b]
    by (simp add: checkMatches_def Let_def fullChain_def mkBall_def searchForward.simps spliceRemove_def)
  from o1 o2 h i1 i2 show ?thesis by (intro conjI)
qed

text \<open>
  C10. \<open>checkMatches\<close> never reads a distance: when the balls are
  \<open>pre @ run @ post\<close>, the run has one colour and at least 3 balls, the
  neighbours of the run on both sides have another colour, and the index
  lies in the run, then the whole run is removed and its length returned,
  whatever the distances of its balls. Three red balls 100 apart are removed
  by \<open>checkMatches\<close>, while the scan of \<open>update\<close> with its limit of 38 leaves
  them.
\<close>

theorem checkMatches_ignores_gaps:
  assumes bs: "balls c = pre @ run @ post"
    and len: "3 \<le> length run"
    and col: "\<forall>b \<in> set run. color b = col"
    and left: "pre = [] \<or> color (last pre) \<noteq> col"
    and right: "post = [] \<or> color (hd post) \<noteq> col"
    and piv: "length pre \<le> pivot" "pivot < length pre + length run"
  shows "checkMatches (int pivot) c = (c\<lparr>balls := pre @ post\<rparr>, length run)"
proof -
  let ?P = "length pre"
  let ?R = "length run"
  have inrun: "color (balls c ! k) = col" if "?P \<le> k" "k < ?P + ?R" for k
  proof -
    from that have "balls c ! k = run ! (k - ?P)" by (simp add: bs nth_append)
    moreover from that have "run ! (k - ?P) \<in> set run" by simp
    ultimately show ?thesis using col by simp
  qed
  have before: "color (balls c ! (?P - 1)) \<noteq> col" if "0 < ?P"
  proof -
    from that have "pre \<noteq> []" by auto
    moreover from that have "balls c ! (?P - 1) = last pre"
      by (simp add: bs nth_append last_conv_nth)
    ultimately show ?thesis using left by simp
  qed
  have after: "color (balls c ! (?P + ?R)) \<noteq> col" if "?P + ?R < length (balls c)"
  proof -
    from that have "post \<noteq> []" by (auto simp: bs)
    moreover from this have "balls c ! (?P + ?R) = hd post"
      by (simp add: bs nth_append hd_conv_nth)
    ultimately show ?thesis using right by simp
  qed
  have pc: "color (balls c ! pivot) = col" using piv by (rule inrun)
  have h: "0 \<le> int pivot" "int pivot < int (length (balls c))" using piv by (simp_all add: bs)
  from checkMatches_inside [OF h] pc obtain st cnt where
    a: "st \<le> pivot" "pivot < st + cnt" "st + cnt \<le> length (balls c)"
    and b: "\<forall>k. st \<le> k \<and> k < st + cnt \<longrightarrow> color (balls c ! k) = col"
    and c1: "st = 0 \<or> color (balls c ! (st - 1)) \<noteq> col"
    and c2: "st + cnt = length (balls c) \<or> color (balls c ! (st + cnt)) \<noteq> col"
    and r: "checkMatches (int pivot) c =
           (if 3 \<le> cnt
            then (c\<lparr>balls := take st (balls c) @ drop (st + cnt) (balls c)\<rparr>, cnt)
            else (c, 0))"
    by auto
  have s1: "\<not> st < ?P"
  proof
    assume l: "st < ?P"
    then have "st \<le> ?P - 1 \<and> ?P - 1 < st + cnt" using piv a by arith
    with b have "color (balls c ! (?P - 1)) = col" by blast
    moreover from l have "0 < ?P" by auto
    ultimately show False using before by simp
  qed
  have s2: "\<not> ?P < st"
  proof
    assume l: "?P < st"
    then have "?P \<le> st - 1" "st - 1 < ?P + ?R" using piv a by arith+
    then have "color (balls c ! (st - 1)) = col" by (rule inrun)
    moreover from l have "st \<noteq> 0" by simp
    ultimately show False using c1 by simp
  qed
  have e1: "\<not> st + cnt < ?P + ?R"
  proof
    assume l: "st + cnt < ?P + ?R"
    moreover have "?P \<le> st + cnt" using piv a by arith
    ultimately have "color (balls c ! (st + cnt)) = col" by (intro inrun)
    moreover from l have "st + cnt \<noteq> length (balls c)" by (simp add: bs)
    ultimately show False using c2 by simp
  qed
  have e2: "\<not> ?P + ?R < st + cnt"
  proof
    assume l: "?P + ?R < st + cnt"
    then have "st \<le> ?P + ?R \<and> ?P + ?R < st + cnt" using piv a by arith
    with b have "color (balls c ! (?P + ?R)) = col" by blast
    moreover from l a have "?P + ?R < length (balls c)" by arith
    ultimately show False using after by simp
  qed
  from s1 s2 have st: "st = ?P" by arith
  with e1 e2 have cnt: "cnt = ?R" by arith
  have "take ?P (balls c) @ drop (?P + ?R) (balls c) = pre @ post" by (simp add: bs)
  with r len show ?thesis by (simp add: st cnt)
qed

theorem checkMatches_ignores_gaps_witness:
  "map color [mkBall 0 ''#ff0055'' 0, mkBall 1 ''#ff0055'' 100, mkBall 2 ''#ff0055'' 200] =
     [''#ff0055'', ''#ff0055'', ''#ff0055''] \<and>
   18 * 2 + epsilon < distance (mkBall 1 ''#ff0055'' 100) - distance (mkBall 0 ''#ff0055'' 0) \<and>
   18 * 2 + epsilon < distance (mkBall 2 ''#ff0055'' 200) - distance (mkBall 1 ''#ff0055'' 100) \<and>
   checkMatches (int 1)
     (fullChain [mkBall 0 ''#ff0055'' 0, mkBall 1 ''#ff0055'' 100, mkBall 2 ''#ff0055'' 200]) =
     (fullChain [], 3) \<and>
   matchLoop (18 * 2 + epsilon)
     [mkBall 0 ''#ff0055'' 0, mkBall 1 ''#ff0055'' 100, mkBall 2 ''#ff0055'' 200] 0 [] =
     ([mkBall 0 ''#ff0055'' 0, mkBall 1 ''#ff0055'' 100, mkBall 2 ''#ff0055'' 200], [])"
proof -
  let ?run = "[mkBall 0 ''#ff0055'' 0, mkBall 1 ''#ff0055'' 100, mkBall 2 ''#ff0055'' 200]"
  have m: "map color ?run = [''#ff0055'', ''#ff0055'', ''#ff0055'']" by (simp add: mkBall_def)
  have g: "18 * 2 + epsilon < distance (mkBall 1 ''#ff0055'' 100) - distance (mkBall 0 ''#ff0055'' 0)"
    "18 * 2 + epsilon < distance (mkBall 2 ''#ff0055'' 200) - distance (mkBall 1 ''#ff0055'' 100)"
    by (simp_all add: mkBall_def epsilon_def)
  have "checkMatches (int 1) (fullChain ?run) = ((fullChain ?run)\<lparr>balls := [] @ []\<rparr>, length ?run)"
  proof (rule checkMatches_ignores_gaps [where col = "''#ff0055''"])
    show "balls (fullChain ?run) = [] @ ?run @ []" by (simp add: fullChain_def)
    show "3 \<le> length ?run" by simp
    show "\<forall>b \<in> set ?run. color b = ''#ff0055''" by (simp add: mkBall_def)
    show "[] = [] \<or> color (last []) \<noteq> ''#ff0055''" by simp
    show "[] = [] \<or> color (hd []) \<noteq> ''#ff0055''" by simp
    show "length [] \<le> (1::nat)" by simp
    show "1 < length [] + length ?run" by simp
  qed
  then have c: "checkMatches (int 1) (fullChain ?run) = (fullChain [], 3)"
    by (simp add: fullChain_def)
  have s: "matchLoop (18 * 2 + epsilon) ?run 0 [] = (?run, [])"
    by (simp add: mkBall_def epsilon_def matchLoop.simps extendRun.simps)
  from m g c s show ?thesis by (intro conjI)
qed

section \<open>Collision\<close>

text \<open>
  In the specification's words: a ball overlaps the projectile when the
  Euclidean distance between the ball's position on the path and the
  projectile's position is less than the sum of the two radii.
\<close>

definition overlaps :: "path \<Rightarrow> projectile \<Rightarrow> ball \<Rightarrow> bool" where
  "overlaps p proj b =
     (case getPointAt p (distance b) of
        Inl e \<Rightarrow> False
      | Inr pos \<Rightarrow>
          sqrt ((loc_x pos - proj_x proj) * (loc_x pos - proj_x proj) +
                (loc_y pos - proj_y proj) * (loc_y pos - proj_y proj))
            < radius b + proj_radius proj)"

lemma collisionFrom_hit:
  "i < length (balls c) \<Longrightarrow> getPointAt (chain_path c) (distance (balls c ! i)) = Inr pos \<Longrightarrow>
   overlaps (chain_path c) proj (balls c ! i) \<Longrightarrow>
   collisionFrom c proj i =
     Inr (Some \<lparr>hit_index = i, hit_ball = balls c ! i, hit_x = loc_x pos, hit_y = loc_y pos\<rparr>)"
  by (subst collisionFrom.simps) (simp add: overlaps_def Let_def)

lemma collisionFrom_miss:
  "i < length (balls c) \<Longrightarrow> getPointAt (chain_path c) (distance (balls c ! i)) = Inr pos \<Longrightarrow>
   \<not> overlaps (chain_path c) proj (balls c ! i) \<Longrightarrow>
   collisionFrom c proj i = collisionFrom c proj (i + 1)"
  by (subst collisionFrom.simps) (simp add: overlaps_def Let_def)

lemma collisionFrom_error:
  "i < length (balls c) \<Longrightarrow>
   getPointAt (chain_path c) (distance (balls c ! i)) = Inl TypeError \<Longrightarrow>
   collisionFrom c proj i = Inl TypeError"
  by (subst collisionFrom.simps) (simp add: Let_def)

lemma collisionFrom_skip:
  "i < length (balls c) \<Longrightarrow>
   getPointAt (chain_path c) (distance (balls c ! i)) = Inl NaNValue \<Longrightarrow>
   collisionFrom c proj i = collisionFrom c proj (i + 1)"
  by (subst collisionFrom.simps) (simp add: Let_def)

lemma overlaps_located:
  "overlaps p proj b \<Longrightarrow> \<exists>pos. getPointAt p (distance b) = Inr pos"
  by (cases "getPointAt p (distance b)") (simp_all add: overlaps_def)

lemma not_overlaps_from:
  "\<not> overlaps p proj (bs ! i) \<Longrightarrow>
   \<forall>k. i + 1 \<le> k \<and> k < n \<longrightarrow> \<not> overlaps p proj (bs ! k) \<Longrightarrow>
   \<forall>k. i \<le> k \<and> k < n \<longrightarrow> \<not> overlaps p proj (bs ! k)"
  by (metis Suc_eq_plus1 Suc_leI le_neq_implies_less)

lemma collisionFrom_end: "\<not> i < length (balls c) \<Longrightarrow> collisionFrom c proj i = Inr None"
  by (subst collisionFrom.simps) simp

lemma collisionFrom_first:
  "collisionFrom c proj i = Inr res \<Longrightarrow>
   (case res of
      None \<Rightarrow> \<forall>k. i \<le> k \<and> k < length (balls c) \<longrightarrow> \<not> overlaps (chain_path c) proj (balls c ! k)
    | Some h \<Rightarrow>
        i \<le> hit_index h \<and> hit_index h < length (balls c) \<and>
        hit_ball h = balls c ! hit_index h \<and>
        overlaps (chain_path c) proj (balls c ! hit_index h) \<and>
        (\<exists>a. getPointAt (chain_path c) (distance (hit_ball h)) =
               Inr \<lparr>loc_x = hit_x h, loc_y = hit_y h, loc_angle = a\<rparr>) \<and>
        (\<forall>k. i \<le> k \<and> k < hit_index h \<longrightarrow> \<not> overlaps (chain_path c) proj (balls c ! k)))"
proof (induction c proj i rule: collisionFrom.induct)
  case (1 c proj i)
  let ?P = "\<lambda>i. (case res of
      None \<Rightarrow> \<forall>k. i \<le> k \<and> k < length (balls c) \<longrightarrow> \<not> overlaps (chain_path c) proj (balls c ! k)
    | Some h \<Rightarrow>
        i \<le> hit_index h \<and> hit_index h < length (balls c) \<and>
        hit_ball h = balls c ! hit_index h \<and>
        overlaps (chain_path c) proj (balls c ! hit_index h) \<and>
        (\<exists>a. getPointAt (chain_path c) (distance (hit_ball h)) =
               Inr \<lparr>loc_x = hit_x h, loc_y = hit_y h, loc_angle = a\<rparr>) \<and>
        (\<forall>k. i \<le> k \<and> k < hit_index h \<longrightarrow> \<not> overlaps (chain_path c) proj (balls c ! k)))"
  have step: "?P i" if o: "\<not> overlaps (chain_path c) proj (balls c ! i)" and n: "?P (i + 1)"
  proof (cases res)
    case None
    with n have "\<forall>k. i + 1 \<le> k \<and> k < length (balls c) \<longrightarrow>
        \<not> overlaps (chain_path c) proj (balls c ! k)" by simp
    from not_overlaps_from [OF o this] None show ?thesis by simp
  next
    case (Some h)
    with n have f: "i + 1 \<le> hit_index h" "hit_index h < length (balls c)"
      "hit_ball h = balls c ! hit_index h"
      "overlaps (chain_path c) proj (balls c ! hit_index h)"
      "\<exists>a. getPointAt (chain_path c) (distance (hit_ball h)) =
         Inr \<lparr>loc_x = hit_x h, loc_y = hit_y h, loc_angle = a\<rparr>"
      "\<forall>k. i + 1 \<le> k \<and> k < hit_index h \<longrightarrow> \<not> overlaps (chain_path c) proj (balls c ! k)"
      by auto
    from not_overlaps_from [OF o f(6)] f Some show ?thesis by simp
  qed
  show ?case
  proof (cases "i < length (balls c)")
    case False
    with "1.prems" collisionFrom_end [OF False, of proj] show ?thesis by auto
  next
    case True
    show ?thesis
    proof (cases "getPointAt (chain_path c) (distance (balls c ! i))")
      case (Inl e)
      show ?thesis
      proof (cases e)
        case TypeError
        with Inl "1.prems" collisionFrom_error [OF True, of proj] show ?thesis by simp
      next
        case NaNValue
        with Inl have g: "getPointAt (chain_path c) (distance (balls c ! i)) = Inl NaNValue"
          by simp
        from "1.prems" collisionFrom_skip [OF True g]
        have e: "collisionFrom c proj (i + 1) = Inr res" by simp
        have o: "\<not> overlaps (chain_path c) proj (balls c ! i)"
          using g by (simp add: overlaps_def)
        from "1.IH"(1) [OF True refl g refl e] have "?P (i + 1)" .
        with o show ?thesis by (rule step)
      qed
    next
      case (Inr pos)
      show ?thesis
      proof (cases "overlaps (chain_path c) proj (balls c ! i)")
        case o: True
        have "pos = \<lparr>loc_x = loc_x pos, loc_y = loc_y pos, loc_angle = loc_angle pos\<rparr>" by simp
        with Inr have "\<exists>a. getPointAt (chain_path c) (distance (balls c ! i)) =
               Inr \<lparr>loc_x = loc_x pos, loc_y = loc_y pos, loc_angle = a\<rparr>" by metis
        with "1.prems" collisionFrom_hit [OF True Inr o] True o show ?thesis by auto
      next
        case o: False
        from "1.prems" collisionFrom_miss [OF True Inr o]
        have e: "collisionFrom c proj (i + 1) = Inr res" by simp
        have d: "\<not> (sqrt ((loc_x pos - proj_x proj) * (loc_x pos - proj_x proj) +
                (loc_y pos - proj_y proj) * (loc_y pos - proj_y proj))
            < radius (balls c ! i) + proj_radius proj)"
          using o Inr by (simp add: overlaps_def)
        from "1.IH"(2) [OF True refl Inr refl refl refl d e] have "?P (i + 1)" .
        with o show ?thesis by (rule step)
      qed
    qed
  qed
qed

lemma collisionFrom_total:
  "\<forall>b \<in> set (balls c). \<exists>pos. getPointAt (chain_path c) (distance b) = Inr pos \<Longrightarrow>
   \<exists>res. collisionFrom c proj i = Inr res"
proof (induction c proj i rule: collisionFrom.induct)
  case (1 c proj i)
  show ?case
  proof (cases "i < length (balls c)")
    case False
    then show ?thesis by (simp add: collisionFrom_end)
  next
    case True
    then have "balls c ! i \<in> set (balls c)" by simp
    with "1.prems" obtain pos where p: "getPointAt (chain_path c) (distance (balls c ! i)) = Inr pos"
      by blast
    show ?thesis
    proof (cases "overlaps (chain_path c) proj (balls c ! i)")
      case o: True
      show ?thesis by (simp add: collisionFrom_hit [OF True p o])
    next
      case o: False
      have d: "\<not> (sqrt ((loc_x pos - proj_x proj) * (loc_x pos - proj_x proj) +
                (loc_y pos - proj_y proj) * (loc_y pos - proj_y proj))
            < radius (balls c ! i) + proj_radius proj)"
        using o p by (simp add: overlaps_def)
      from "1.IH"(2) [OF True refl p refl refl refl d "1.prems"]
      show ?thesis by (simp add: collisionFrom_miss [OF True p o])
    qed
  qed
qed


text \<open>
  C7. \<open>checkCollision\<close> returns the first overlapping ball in index order: a
  returned hit names an index inside the array, the ball at that index and
  its position on the path, that ball overlaps the projectile and no ball at
  a smaller index does, however close a later ball is; \<open>null\<close> is returned
  only when no ball overlaps. When every ball has a position on the path, the
  call returns one of the two.
\<close>

theorem checkCollision_first:
  "(checkCollision c proj = Inr (Some h) \<longrightarrow>
      hit_index h < length (balls c) \<and>
      hit_ball h = balls c ! hit_index h \<and>
      overlaps (chain_path c) proj (balls c ! hit_index h) \<and>
      (\<exists>a. getPointAt (chain_path c) (distance (hit_ball h)) =
             Inr \<lparr>loc_x = hit_x h, loc_y = hit_y h, loc_angle = a\<rparr>) \<and>
      (\<forall>k. k < hit_index h \<longrightarrow> \<not> overlaps (chain_path c) proj (balls c ! k))) \<and>
   (checkCollision c proj = Inr None \<longrightarrow>
      (\<forall>k. k < length (balls c) \<longrightarrow> \<not> overlaps (chain_path c) proj (balls c ! k))) \<and>
   ((\<forall>b \<in> set (balls c). \<exists>pos. getPointAt (chain_path c) (distance b) = Inr pos) \<longrightarrow>
      (\<exists>res. checkCollision c proj = Inr res))"
proof -
  have a: "checkCollision c proj = Inr (Some h) \<longrightarrow>
      hit_index h < length (balls c) \<and>
      hit_ball h = balls c ! hit_index h \<and>
      overlaps (chain_path c) proj (balls c ! hit_index h) \<and>
      (\<exists>a. getPointAt (chain_path c) (distance (hit_ball h)) =
             Inr \<lparr>loc_x = hit_x h, loc_y = hit_y h, loc_angle = a\<rparr>) \<and>
      (\<forall>k. k < hit_index h \<longrightarrow> \<not> overlaps (chain_path c) proj (balls c ! k))"
  proof
    assume "checkCollision c proj = Inr (Some h)"
    then have "collisionFrom c proj 0 = Inr (Some h)" by (simp add: checkCollision_def)
    from collisionFrom_first [OF this]
    show "hit_index h < length (balls c) \<and>
      hit_ball h = balls c ! hit_index h \<and>
      overlaps (chain_path c) proj (balls c ! hit_index h) \<and>
      (\<exists>a. getPointAt (chain_path c) (distance (hit_ball h)) =
             Inr \<lparr>loc_x = hit_x h, loc_y = hit_y h, loc_angle = a\<rparr>) \<and>
      (\<forall>k. k < hit_index h \<longrightarrow> \<not> overlaps (chain_path c) proj (balls c ! k))"
      by auto
  qed
  have b: "checkCollision c proj = Inr None \<longrightarrow>
      (\<forall>k. k < length (balls c) \<longrightarrow> \<not> overlaps (chain_path c) proj (balls c ! k))"
  proof
    assume "checkCollision c proj = Inr None"
    then have "collisionFrom c proj 0 = Inr None" by (simp add: checkCollision_def)
    from collisionFrom_first [OF this]
    show "\<forall>k. k < length (balls c) \<longrightarrow> \<not> overlaps (chain_path c) proj (balls c ! k)"
      by simp
  qed
  have t: "(\<forall>b \<in> set (balls c). \<exists>pos. getPointAt (chain_path c) (distance b) = Inr pos) \<longrightarrow>
      (\<exists>res. checkCollision c proj = Inr res)"
    unfolding checkCollision_def using collisionFrom_total [of c proj 0] by blast
  show ?thesis by (rule conjI [OF a conjI [OF b t]])
qed

theorem checkCollision_first_witness:
  "checkCollision (fullChain [mkBall 0 ''#ff0055'' 0, mkBall 1 ''#00f2ff'' 36]) (shotAt 10 0) =
     Inr (Some \<lparr>hit_index = 0, hit_ball = mkBall 0 ''#ff0055'' 0, hit_x = 0, hit_y = 0\<rparr>) \<and>
   overlaps linePath (shotAt 10 0) (mkBall 0 ''#ff0055'' 0) \<and>
   overlaps linePath (shotAt 10 0) (mkBall 1 ''#00f2ff'' 36) \<and>
   getPointAt linePath (distance (mkBall 1 ''#00f2ff'' 36)) =
     Inr \<lparr>loc_x = 10, loc_y = 0, loc_angle = Some 0\<rparr> \<and>
   checkCollision (fullChain [mkBall 0 ''#ff0055'' 0, mkBall 1 ''#00f2ff'' 36]) (shotAt 100 0) =
     Inr None \<and>
   \<not> overlaps linePath (shotAt 100 0) (mkBall 1 ''#00f2ff'' 36)"
proof -
  let ?c = "fullChain [mkBall 0 ''#ff0055'' 0, mkBall 1 ''#00f2ff'' 36]"
  let ?h = "\<lparr>hit_index = 0, hit_ball = mkBall 0 ''#ff0055'' 0, hit_x = 0, hit_y = 0\<rparr>"
  have r: "sqrt 100 = 10" "sqrt 10000 = 100" "sqrt 8100 = 90"
    using real_sqrt_abs2 [of 10] real_sqrt_abs2 [of 100] real_sqrt_abs2 [of 90] by simp_all
  have p0: "getPointAt linePath 0 = Inr \<lparr>loc_x = 0, loc_y = 0, loc_angle = Some 0\<rparr>"
    by (simp add: getPointAt_def linePath_def walkSegments.simps atan2_def)
  have p1: "getPointAt linePath 36 = Inr \<lparr>loc_x = 10, loc_y = 0, loc_angle = Some 0\<rparr>"
    by (simp add: getPointAt_def linePath_def atan2_def)
  have e: "checkCollision ?c (shotAt 10 0) = Inr (Some ?h)"
    by (simp add: checkCollision_def collisionFrom.simps fullChain_def mkBall_def shotAt_def p0 r)
  have n: "checkCollision ?c (shotAt 100 0) = Inr None"
    by (simp add: checkCollision_def collisionFrom.simps fullChain_def mkBall_def shotAt_def p0 p1 r)
  from checkCollision_first [of ?c "shotAt 10 0" ?h] e
  have "overlaps (chain_path ?c) (shotAt 10 0) (balls ?c ! hit_index ?h)" by blast
  then have o0: "overlaps linePath (shotAt 10 0) (mkBall 0 ''#ff0055'' 0)"
    by (simp add: fullChain_def)
  have o1: "overlaps linePath (shotAt 10 0) (mkBall 1 ''#00f2ff'' 36)"
    by (simp add: overlaps_def mkBall_def shotAt_def p1)
  have q: "getPointAt linePath (distance (mkBall 1 ''#00f2ff'' 36)) =
     Inr \<lparr>loc_x = 10, loc_y = 0, loc_angle = Some 0\<rparr>"
    by (simp add: mkBall_def p1)
  from checkCollision_first [of ?c "shotAt 100 0"] n
  have "\<forall>k. k < length (balls ?c) \<longrightarrow> \<not> overlaps (chain_path ?c) (shotAt 100 0) (balls ?c ! k)"
    by blast
  then have "1 < length (balls ?c) \<longrightarrow> \<not> overlaps (chain_path ?c) (shotAt 100 0) (balls ?c ! 1)"
    by blast
  then have f: "\<not> overlaps linePath (shotAt 100 0) (mkBall 1 ''#00f2ff'' 36)"
    by (simp add: fullChain_def)
  from e o0 o1 q n f show ?thesis by (intro conjI)
qed

section \<open>Spawn cadence\<close>

lemma update_keeps_spawn_fields:
  "spawnInterval (fst (update dt rnd c)) = spawnInterval (spawnStep dt rnd c) \<and>
   spawnedCount (fst (update dt rnd c)) = spawnedCount (spawnStep dt rnd c) \<and>
   spawnTimer (fst (update dt rnd c)) = spawnTimer (spawnStep dt rnd c) \<and>
   nextId (fst (update dt rnd c)) = nextId (spawnStep dt rnd c)"
  by (simp add: update_def Let_def split: prod.splits)

lemma spawnBall_fields:
  "spawnInterval (spawnBall rnd c) = spawnInterval c \<and>
   spawnedCount (spawnBall rnd c) = spawnedCount c + 1 \<and>
   nextId (spawnBall rnd c) = Suc (nextId c) \<and>
   length (balls (spawnBall rnd c)) = length (balls c) + 1 \<and>
   take (length (balls c)) (balls (spawnBall rnd c)) = balls c"
  by (simp add: spawnBall_def Let_def split: prod.splits)

text \<open>
  C8. The spawn interval set by the constructor is the diameter divided by
  the base speed, \<open>36 / 55\<close> at level 1 (speed 55, radius 18), and \<open>update\<close>
  never changes it. In one call of \<open>update\<close>: below the cap, \<open>dt\<close> is added to
  the timer, and if the timer has then reached the interval exactly one ball
  is created (one more spawned, one more id, one more ball after the spawn
  step) and the timer is set to 0; otherwise nothing is spawned. So a call
  spawns at most one ball, whatever \<open>dt\<close> is.
\<close>

theorem spawn_cadence:
  "spawnInterval (newChain p level rnd0) =
     (ballRadius (newChain p level rnd0) * 2) / speed (newChain p level rnd0) \<and>
   speed (newChain p 1 rnd0) = 55 \<and> ballRadius (newChain p 1 rnd0) = 18 \<and>
   spawnInterval (newChain p 1 rnd0) = 36 / 55 \<and>
   spawnInterval (fst (update dt rnd c)) = spawnInterval c \<and>
   spawnedCount (fst (update dt rnd c)) =
     spawnedCount c +
       (if spawnedCount c < maxBalls c \<and> spawnInterval c \<le> spawnTimer c + dt then 1 else 0) \<and>
   nextId (fst (update dt rnd c)) =
     nextId c +
       (if spawnedCount c < maxBalls c \<and> spawnInterval c \<le> spawnTimer c + dt then 1 else 0) \<and>
   length (balls (spawnStep dt rnd c)) =
     length (balls c) +
       (if spawnedCount c < maxBalls c \<and> spawnInterval c \<le> spawnTimer c + dt then 1 else 0) \<and>
   spawnTimer (fst (update dt rnd c)) =
     (if spawnedCount c < maxBalls c
      then (if spawnInterval c \<le> spawnTimer c + dt then 0 else spawnTimer c + dt)
      else spawnTimer c) \<and>
   spawnedCount (fst (update dt rnd c)) \<le> spawnedCount c + 1"
proof (intro conjI)
  show "spawnInterval (newChain p level rnd0) =
     (ballRadius (newChain p level rnd0) * 2) / speed (newChain p level rnd0)"
    by (simp add: newChain_def)
  show "speed (newChain p 1 rnd0) = 55" by (simp add: newChain_def)
  show "ballRadius (newChain p 1 rnd0) = 18" by (simp add: newChain_def)
  show "spawnInterval (newChain p 1 rnd0) = 36 / 55" by (simp add: newChain_def)
  show "spawnInterval (fst (update dt rnd c)) = spawnInterval c"
    by (simp add: update_keeps_spawn_fields spawnStep_def Let_def spawnBall_fields)
  show "spawnedCount (fst (update dt rnd c)) =
     spawnedCount c +
       (if spawnedCount c < maxBalls c \<and> spawnInterval c \<le> spawnTimer c + dt then 1 else 0)"
    by (simp add: update_keeps_spawn_fields spawnStep_def Let_def spawnBall_fields)
  show "nextId (fst (update dt rnd c)) =
     nextId c +
       (if spawnedCount c < maxBalls c \<and> spawnInterval c \<le> spawnTimer c + dt then 1 else 0)"
    by (simp add: update_keeps_spawn_fields spawnStep_def Let_def spawnBall_fields)
  show "length (balls (spawnStep dt rnd c)) =
     length (balls c) +
       (if spawnedCount c < maxBalls c \<and> spawnInterval c \<le> spawnTimer c + dt then 1 else 0)"
    by (simp add: spawnStep_def Let_def spawnBall_fields)
  show "spawnTimer (fst (update dt rnd c)) =
     (if spawnedCount c < maxBalls c
      then (if spawnInterval c \<le> spawnTimer c + dt then 0 else spawnTimer c + dt)
      else spawnTimer c)"
    by (simp add: update_keeps_spawn_fields spawnStep_def Let_def)
  show "spawnedCount (fst (update dt rnd c)) \<le> spawnedCount c + 1"
    by (simp add: update_keeps_spawn_fields spawnStep_def Let_def spawnBall_fields)
qed

theorem spawn_cadence_witness:
  "spawnedCount (newChain linePath 1 (\<lambda>k. 0)) = 1 \<and>
   maxBalls (newChain linePath 1 (\<lambda>k. 0)) = 30 \<and>
   spawnInterval (newChain linePath 1 (\<lambda>k. 0)) = 36 / 55 \<and>
   spawnedCount (fst (update (36 / 55) (\<lambda>k. 0) (newChain linePath 1 (\<lambda>k. 0)))) = 2 \<and>
   spawnTimer (fst (update (36 / 55) (\<lambda>k. 0) (newChain linePath 1 (\<lambda>k. 0)))) = 0 \<and>
   spawnedCount (fst (update 1000 (\<lambda>k. 0) (newChain linePath 1 (\<lambda>k. 0)))) = 2 \<and>
   spawnTimer (fst (update 1000 (\<lambda>k. 0) (newChain linePath 1 (\<lambda>k. 0)))) = 0 \<and>
   spawnedCount (fst (update (1 / 10) (\<lambda>k. 0) (newChain linePath 1 (\<lambda>k. 0)))) = 1 \<and>
   spawnTimer (fst (update (1 / 10) (\<lambda>k. 0) (newChain linePath 1 (\<lambda>k. 0)))) = 1 / 10"
proof -
  let ?c = "newChain linePath 1 (\<lambda>k. 0)"
  have f: "spawnedCount ?c = 1" "maxBalls ?c = 30" "spawnInterval ?c = 36 / 55" "spawnTimer ?c = 0"
    by (simp_all add: newChain_def)
  have a: "spawnedCount (fst (update (36 / 55) (\<lambda>k. 0) ?c)) = 2"
    "spawnTimer (fst (update (36 / 55) (\<lambda>k. 0) ?c)) = 0"
    using spawn_cadence [of linePath 1 "\<lambda>k. 0" "36 / 55" "\<lambda>k. 0" ?c] by (simp_all add: f)
  have b: "spawnedCount (fst (update 1000 (\<lambda>k. 0) ?c)) = 2"
    "spawnTimer (fst (update 1000 (\<lambda>k. 0) ?c)) = 0"
    using spawn_cadence [of linePath 1 "\<lambda>k. 0" 1000 "\<lambda>k. 0" ?c] by (simp_all add: f)
  have d: "spawnedCount (fst (update (1 / 10) (\<lambda>k. 0) ?c)) = 1"
    "spawnTimer (fst (update (1 / 10) (\<lambda>k. 0) ?c)) = 1 / 10"
    using spawn_cadence [of linePath 1 "\<lambda>k. 0" "1 / 10" "\<lambda>k. 0" ?c] by (simp_all add: f)
  from f(1,2,3) a b d show ?thesis by (intro conjI)
qed

section \<open>Termination signals\<close>

text \<open>
  C9. In every chain state the failure signal \<open>hasReachedEnd\<close> and the victory
  signal \<open>isEmpty \<and> hasFinishedSpawning\<close> are never both true: the failure
  signal is false on an empty chain.
\<close>

theorem signals_exclusive:
  "\<not> (hasReachedEnd c \<and> (isEmpty c \<and> hasFinishedSpawning c))"
  by (simp add: hasReachedEnd_def isEmpty_def)

end
